theory Spec2Isabelle
  imports Complex_Main "HOL-Library.Signed_Division"
begin

section \<open>The ODE solver of \<open>solver.cu\<close>\<close>

text \<open>
  The source integrates a batch of state elements on the GPU: two stepping functions
  (\<open>euler_method\<close>, \<open>rk4_method\<close>), four kernels that read the coefficient matrix in
  different layouts, and the host function \<open>solve_cuda\<close> that looks the method up by name,
  switches on the leading dimension of the matrix and launches one kernel.

  Numbers. The source computes in \<open>float\<close>. The embedding is polymorphic in the number type:
  the kernels only add (\<open>'a::plus\<close>), Euler only multiplies, RK4 adds, multiplies, divides and
  uses the literals 2 and 6. Nothing is assumed about these operations unless a theorem says
  so in its sort, so a statement proved here holds for every interpretation of the
  arithmetic. RK4's intermediate stages are \<open>double\<close> in the source (the literals \<open>2.0\<close> and
  \<open>6.0\<close> promote them) and the result is rounded to \<open>float\<close> on return; the embedding has one
  number type and does not show that rounding.
\<close>

subsection \<open>Stepping functions\<close>

definition euler_method :: "'a::times \<Rightarrow> 'a \<Rightarrow> 'a \<Rightarrow> 'a \<Rightarrow> 'a" where
  "euler_method F_in x0_in g_in dt = (F_in * g_in) * dt"

definition rk4_method :: "'a::{plus,times,inverse,numeral} \<Rightarrow> 'a \<Rightarrow> 'a \<Rightarrow> 'a \<Rightarrow> 'a" where
  "rk4_method F_in x0_in g_in dt =
     (let f1 = (F_in * g_in) * dt;
          c2 = dt * f1 / 2;
          f2 = (F_in * (g_in + c2)) * (dt / 2);
          c3 = dt * f2 / 2;
          f3 = (F_in * (g_in + c3)) * (dt / 2);
          c4 = dt * f3;
          f4 = (F_in * (g_in + c4)) * dt
      in (f1 + 2 * f2 + 2 * f3 + f4) / 6)"

subsection \<open>Faults, accessors and the method pointer\<close>

text \<open>
  A \<open>PackedTensorAccessor\<close> does not check its index, and a call through a null function
  pointer is not checked either: both are undefined behaviour in the source. The embedding
  makes each a fault, so that a run that would read out of range or call a null pointer is
  a value \<open>Inl\<close> of the model and never an unspecified number. \<open>AssertFailed\<close> is the
  exception of \<open>AT_ASSERTM\<close> in the C++ interface.
\<close>

datatype fault = OutOfBounds | NullMethodCall | AssertFailed string

definition and_then :: "fault + 'a \<Rightarrow> ('a \<Rightarrow> fault + 'b) \<Rightarrow> fault + 'b" where
  "and_then m f = (case m of Inl e \<Rightarrow> Inl e | Inr v \<Rightarrow> f v)"

text \<open>\<open>a[i]\<close> on a one-dimensional accessor and \<open>a[i][j]\<close> on a two-dimensional one.\<close>

definition at1 :: "'a list \<Rightarrow> int \<Rightarrow> fault + 'a" where
  "at1 a i = (if 0 \<le> i \<and> i < int (length a) then Inr (a ! nat i) else Inl OutOfBounds)"

definition at2 :: "'a list list \<Rightarrow> int \<Rightarrow> int \<Rightarrow> fault + 'a" where
  "at2 a i j = and_then (at1 a i) (\<lambda>row. at1 row j)"

text \<open>
  \<open>method_t\<close> is a pointer to a stepping function; \<open>None\<close> is the null pointer.
\<close>

type_synonym 'a method_t = "('a \<Rightarrow> 'a \<Rightarrow> 'a \<Rightarrow> 'a \<Rightarrow> 'a) option"

definition call :: "'a method_t \<Rightarrow> 'a \<Rightarrow> 'a \<Rightarrow> 'a \<Rightarrow> 'a \<Rightarrow> fault + 'a" where
  "call method F_in x0_in g_in dt =
     (case method of None \<Rightarrow> Inl NullMethodCall | Some f \<Rightarrow> Inr (f F_in x0_in g_in dt))"

subsection \<open>The step loops\<close>

text \<open>
  \<open>for(int i = 0; i < steps; i++)\<close> runs its body \<open>nat steps\<close> times (not at all when
  \<open>steps \<le> 0\<close>); the body does not use \<open>i\<close>. The first loop is the one of \<open>general_solver\<close>
  and \<open>compact_diagonal_solver\<close>, the second the one of the two skew-symmetric kernels,
  whose bodies are the same text. \<open>a + b + c\<close> is \<open>(a + b) + c\<close>, as in C++.
\<close>

fun single_loop :: "'a::plus method_t \<Rightarrow> 'a \<Rightarrow> 'a \<Rightarrow> 'a \<Rightarrow> nat \<Rightarrow> 'a \<Rightarrow> fault + 'a" where
  "single_loop method F_in g_in dt 0 x0_in = Inr x0_in"
| "single_loop method F_in g_in dt (Suc n) x0_in =
     and_then (call method F_in x0_in g_in dt) (\<lambda>inc.
       single_loop method F_in g_in dt n (x0_in + inc))"

fun pair_loop ::
  "'a::plus method_t \<Rightarrow> 'a \<Rightarrow> 'a \<Rightarrow> 'a \<Rightarrow> 'a \<Rightarrow> 'a \<Rightarrow> 'a \<Rightarrow> 'a \<Rightarrow> nat \<Rightarrow> 'a \<times> 'a \<Rightarrow> fault + 'a \<times> 'a"
where
  "pair_loop method UL_v UR_v LL_v LR_v g_in_1 g_in_2 dt 0 (x0_in_1, x0_in_2) =
     Inr (x0_in_1, x0_in_2)"
| "pair_loop method UL_v UR_v LL_v LR_v g_in_1 g_in_2 dt (Suc n) (x0_in_1, x0_in_2) =
     and_then (call method UL_v x0_in_1 g_in_1 dt) (\<lambda>a.
     and_then (call method UR_v x0_in_2 g_in_2 dt) (\<lambda>b.
       let x0_in_1 = x0_in_1 + a + b in
       and_then (call method LL_v x0_in_1 g_in_1 dt) (\<lambda>c.
       and_then (call method LR_v x0_in_2 g_in_2 dt) (\<lambda>d.
         let x0_in_2 = x0_in_1 + c + d in
         pair_loop method UL_v UR_v LL_v LR_v g_in_1 g_in_2 dt n (x0_in_1, x0_in_2)))))"

subsection \<open>The four kernels, one thread each\<close>

text \<open>
  Each definition is the body of the kernel for the thread whose index is \<open>tid\<close>. The thread
  reads \<open>x0_a\<close>, \<open>g_a\<close> and \<open>F_a\<close>, and its result is the list of its stores
  \<open>x0_a[i] = v\<close>, in program order. \<open>x0_size/2\<close> is the truncating division of C++.
\<close>

definition general_solver ::
  "'a::plus method_t \<Rightarrow> 'a list list \<Rightarrow> 'a list \<Rightarrow> 'a list \<Rightarrow> 'a \<Rightarrow> int \<Rightarrow> int \<Rightarrow> int
     \<Rightarrow> fault + (int \<times> 'a) list"
where
  "general_solver method F_a x0_a g_a dt steps x0_size tid =
     (if tid < x0_size then
        and_then (at1 x0_a tid) (\<lambda>x0_in.
        and_then (at1 g_a tid) (\<lambda>g_in.
        and_then (at2 F_a tid tid) (\<lambda>F_in.
        and_then (single_loop method F_in g_in dt (nat steps) x0_in) (\<lambda>x0_in.
          Inr [(tid, x0_in)]))))
      else Inr [])"

definition compact_diagonal_solver ::
  "'a::plus method_t \<Rightarrow> 'a list list \<Rightarrow> 'a list \<Rightarrow> 'a list \<Rightarrow> 'a \<Rightarrow> int \<Rightarrow> int \<Rightarrow> int
     \<Rightarrow> fault + (int \<times> 'a) list"
where
  "compact_diagonal_solver method F_a x0_a g_a dt steps x0_size tid =
     (if tid < x0_size then
        and_then (at1 x0_a tid) (\<lambda>x0_in.
        and_then (at1 g_a tid) (\<lambda>g_in.
        and_then (at2 F_a 0 0) (\<lambda>F_in.
        and_then (single_loop method F_in g_in dt (nat steps) x0_in) (\<lambda>x0_in.
          Inr [(tid, x0_in)]))))
      else Inr [])"

definition general_skew_symmetric_solver ::
  "'a::plus method_t \<Rightarrow> 'a list list \<Rightarrow> 'a list \<Rightarrow> 'a list \<Rightarrow> 'a \<Rightarrow> int \<Rightarrow> int \<Rightarrow> int
     \<Rightarrow> fault + (int \<times> 'a) list"
where
  "general_skew_symmetric_solver method F_a x0_a g_a dt steps x0_size tid =
     (if tid < x0_size sdiv 2 then
        and_then (at1 g_a tid) (\<lambda>g_in_1.
        and_then (at1 g_a (tid + x0_size sdiv 2)) (\<lambda>g_in_2.
        and_then (at1 x0_a tid) (\<lambda>x0_in_1.
        and_then (at1 x0_a (tid + x0_size sdiv 2)) (\<lambda>x0_in_2.
        and_then (at2 F_a tid tid) (\<lambda>UL_v.
        and_then (at2 F_a tid (tid + x0_size sdiv 2)) (\<lambda>UR_v.
        and_then (at2 F_a (tid + x0_size sdiv 2) tid) (\<lambda>LL_v.
        and_then (at2 F_a (tid + x0_size sdiv 2) (tid + x0_size sdiv 2)) (\<lambda>LR_v.
        and_then (pair_loop method UL_v UR_v LL_v LR_v g_in_1 g_in_2 dt (nat steps)
                    (x0_in_1, x0_in_2)) (\<lambda>(x0_in_1, x0_in_2).
          Inr [(tid, x0_in_1), (tid + x0_size sdiv 2, x0_in_2)])))))))))
      else Inr [])"

definition compact_skew_symmetric_solver ::
  "'a::plus method_t \<Rightarrow> 'a list list \<Rightarrow> 'a list \<Rightarrow> 'a list \<Rightarrow> 'a \<Rightarrow> int \<Rightarrow> int \<Rightarrow> int
     \<Rightarrow> fault + (int \<times> 'a) list"
where
  "compact_skew_symmetric_solver method F_a x0_a g_a dt steps x0_size tid =
     (if tid < x0_size sdiv 2 then
        and_then (at1 g_a tid) (\<lambda>g_in_1.
        and_then (at1 g_a (tid + x0_size sdiv 2)) (\<lambda>g_in_2.
        and_then (at1 x0_a tid) (\<lambda>x0_in_1.
        and_then (at1 x0_a (tid + x0_size sdiv 2)) (\<lambda>x0_in_2.
        and_then (at2 F_a 0 0) (\<lambda>UL_v.
        and_then (at2 F_a 0 1) (\<lambda>UR_v.
        and_then (at2 F_a 1 0) (\<lambda>LL_v.
        and_then (at2 F_a 1 1) (\<lambda>LR_v.
        and_then (pair_loop method UL_v UR_v LL_v LR_v g_in_1 g_in_2 dt (nat steps)
                    (x0_in_1, x0_in_2)) (\<lambda>(x0_in_1, x0_in_2).
          Inr [(tid, x0_in_1), (tid + x0_size sdiv 2, x0_in_2)])))))))))
      else Inr [])"

subsection \<open>Launching a kernel\<close>

text \<open>
  The stores of a thread are written to \<open>x0_a\<close>; a store outside the array is a fault.
\<close>

fun store_all :: "(int \<times> 'a) list \<Rightarrow> 'a list \<Rightarrow> fault + 'a list" where
  "store_all [] x0_a = Inr x0_a"
| "store_all ((i, v) # ws) x0_a =
     (if 0 \<le> i \<and> i < int (length x0_a) then store_all ws (x0_a[nat i := v])
      else Inl OutOfBounds)"

text \<open>
  \<open>kernel<<<blocks, threadsPerBlock>>>\<close> runs the kernel once for every block index
  below \<open>blocks\<close> and thread index below \<open>threadsPerBlock\<close>, with
  \<open>tid = blockIdx.x * blockDim.x + threadIdx.x\<close> computed in \<open>unsigned int\<close> and stored in
  an \<open>int\<close>. \<open>int32\<close> is the conversion to a 32-bit \<open>int\<close>. A launch with no block (or a
  negative number of blocks) runs no thread.

  The threads are run one after the other in the order of \<open>tid\<close>, each on the array as the
  threads before it left it, and the run records the indices stored so far. This is the
  result of the parallel launch whenever no two threads touch the same element of \<open>x0_a\<close>,
  which is the case for every size below \<open>2 ^ 31\<close>, where \<open>tid\<close> and \<open>x0_size\<close> are the
  numbers they stand for; the theorems that need it say so in a hypothesis.
\<close>

definition int32 :: "int \<Rightarrow> int" where
  "int32 n = (n + 2 ^ 31) mod 2 ^ 32 - 2 ^ 31"

definition thread_ids :: "int \<Rightarrow> int \<Rightarrow> int list" where
  "thread_ids blocks threadsPerBlock =
     concat (map (\<lambda>blockIdx.
        map (\<lambda>threadIdx. int32 ((int blockIdx * threadsPerBlock + int threadIdx) mod 2 ^ 32))
          [0..<nat threadsPerBlock])
       [0..<nat blocks])"

fun run_threads ::
  "('a list \<Rightarrow> int \<Rightarrow> fault + (int \<times> 'a) list) \<Rightarrow> int list \<Rightarrow> 'a list \<times> int list
     \<Rightarrow> fault + 'a list \<times> int list"
where
  "run_threads thread [] (x0_a, stored) = Inr (x0_a, stored)"
| "run_threads thread (tid # tids) (x0_a, stored) =
     and_then (thread x0_a tid) (\<lambda>ws.
     and_then (store_all ws x0_a) (\<lambda>x0_a'.
       run_threads thread tids (x0_a', stored @ map fst ws)))"

definition launch ::
  "int \<Rightarrow> int \<Rightarrow> ('a list \<Rightarrow> int \<Rightarrow> fault + (int \<times> 'a) list) \<Rightarrow> 'a list
     \<Rightarrow> fault + 'a list \<times> int list"
where
  "launch blocks threadsPerBlock thread x0_a =
     run_threads thread (thread_ids blocks threadsPerBlock) (x0_a, [])"

subsection \<open>\<open>solve_cuda\<close> and the C++ interface\<close>

text \<open>
  \<open>h_methods\<close> is the \<open>std::map\<close> built at the start of \<open>solve_cuda\<close>. \<open>h_methods[name]\<close>
  with a name that is not a key inserts a value-initialised entry and returns it: the null
  pointer.
\<close>

definition h_methods :: "string \<Rightarrow> 'a::{plus,times,inverse,numeral} method_t" where
  "h_methods = [''Euler'' \<mapsto> euler_method, ''RK4'' \<mapsto> rk4_method]"

datatype solver_t =
  GeneralSolver | CompactDiagonalSolver | GeneralSkewSymmetricSolver | CompactSkewSymmetricSolver

fun solver ::
  "solver_t \<Rightarrow> 'a::plus method_t \<Rightarrow> 'a list list \<Rightarrow> 'a list \<Rightarrow> 'a list \<Rightarrow> 'a \<Rightarrow> int \<Rightarrow> int \<Rightarrow> int
     \<Rightarrow> fault + (int \<times> 'a) list"
where
  "solver GeneralSolver = general_solver"
| "solver CompactDiagonalSolver = compact_diagonal_solver"
| "solver GeneralSkewSymmetricSolver = general_skew_symmetric_solver"
| "solver CompactSkewSymmetricSolver = compact_skew_symmetric_solver"

text \<open>The \<open>switch(F_size)\<close> of \<open>solve_cuda\<close>.\<close>

definition switch_F_size :: "int \<Rightarrow> solver_t" where
  "switch_F_size F_size =
     (if F_size = 1 then CompactDiagonalSolver
      else if F_size = 2 then CompactSkewSymmetricSolver
      else GeneralSkewSymmetricSolver)"

text \<open>
  \<open>solve_cuda_run\<close> is \<open>solve_cuda\<close> up to the end of the kernel: the array \<open>x0\<close> after the
  launch and the indices the threads stored. \<open>F_size\<close> and \<open>x0_size\<close> are 64-bit in the host
  code; \<open>blocks\<close> and the kernel's parameter \<open>x0_size\<close> are \<open>int\<close>. \<open>solve_cuda\<close> returns
  \<open>x0\<close>. The source returns without waiting for the kernel; a fault of a thread is reported
  here as the result of the call.
\<close>

definition solve_cuda_run ::
  "'a::{plus,times,inverse,numeral} list list \<Rightarrow> 'a list \<Rightarrow> 'a list \<Rightarrow> 'a \<Rightarrow> int \<Rightarrow> string
     \<Rightarrow> fault + 'a list \<times> int list"
where
  "solve_cuda_run F x0 g dt steps name =
     (let d_chosen_method = h_methods name;
          F_size = int (length F);
          x0_size = int (length x0);
          threadsPerBlock = 512;
          blocks = int32 ((x0_size + threadsPerBlock - 1) sdiv threadsPerBlock)
      in launch blocks threadsPerBlock
           (\<lambda>x0_a. solver (switch_F_size F_size) d_chosen_method F x0_a g dt steps (int32 x0_size))
           x0)"

definition solve_cuda ::
  "'a::{plus,times,inverse,numeral} list list \<Rightarrow> 'a list \<Rightarrow> 'a list \<Rightarrow> 'a \<Rightarrow> int \<Rightarrow> string
     \<Rightarrow> fault + 'a list"
where
  "solve_cuda F x0 g dt steps name = map_sum id fst (solve_cuda_run F x0 g dt steps name)"

text \<open>
  A tensor as the interface sees it: where it lives, whether it is contiguous, and its
  elements. \<open>CHECK_INPUT(x)\<close> is \<open>CHECK_CUDA(x); CHECK_CONTIGUOUS(x)\<close>.
\<close>

record 'a tensor =
  is_cuda :: bool
  is_contiguous :: bool
  data :: 'a

definition CHECK_INPUT :: "string \<Rightarrow> 'a tensor \<Rightarrow> fault + unit" where
  "CHECK_INPUT x t =
     (if \<not> is_cuda t then Inl (AssertFailed (x @ '' must be a CUDA tensor''))
      else if \<not> is_contiguous t then Inl (AssertFailed (x @ '' must be contiguous''))
      else Inr ())"

definition solve_cpp ::
  "'a::{plus,times,inverse,numeral} list list tensor \<Rightarrow> 'a list tensor \<Rightarrow> 'a list tensor \<Rightarrow> 'a
     \<Rightarrow> int \<Rightarrow> string \<Rightarrow> fault + 'a list"
where
  "solve_cpp F x0 g dt steps name =
     and_then (CHECK_INPUT ''F'' F) (\<lambda>_.
     and_then (CHECK_INPUT ''x0'' x0) (\<lambda>_.
     and_then (CHECK_INPUT ''g'' g) (\<lambda>_.
       solve_cuda (data F) (data x0) (data g) dt steps name)))"

subsection \<open>Auxiliary notions for the proofs\<close>

text \<open>
  The two loops with a method that is not null, as plain functions: what the loop returns
  when no call can fault (\<open>single_loop_returns\<close> and \<open>pair_loop_returns\<close> below).
\<close>

fun single_steps :: "('a \<Rightarrow> 'a \<Rightarrow> 'a \<Rightarrow> 'a \<Rightarrow> 'a) \<Rightarrow> 'a \<Rightarrow> 'a \<Rightarrow> 'a \<Rightarrow> nat \<Rightarrow> 'a::plus \<Rightarrow> 'a" where
  "single_steps f F_in g_in dt 0 x = x"
| "single_steps f F_in g_in dt (Suc n) x = single_steps f F_in g_in dt n (x + f F_in x g_in dt)"

fun pair_steps ::
  "('a \<Rightarrow> 'a \<Rightarrow> 'a \<Rightarrow> 'a \<Rightarrow> 'a) \<Rightarrow> 'a \<Rightarrow> 'a \<Rightarrow> 'a \<Rightarrow> 'a \<Rightarrow> 'a \<Rightarrow> 'a \<Rightarrow> 'a \<Rightarrow> nat \<Rightarrow> 'a::plus \<times> 'a \<Rightarrow> 'a \<times> 'a"
where
  "pair_steps f UL UR LL LR g1 g2 dt 0 (x1, x2) = (x1, x2)"
| "pair_steps f UL UR LL LR g1 g2 dt (Suc n) (x1, x2) =
     (let y1 = x1 + f UL x1 g1 dt + f UR x2 g2 dt;
          y2 = y1 + f LL y1 g1 dt + f LR x2 g2 dt
      in pair_steps f UL UR LL LR g1 g2 dt n (y1, y2))"

text \<open>
  A valid call, as the specification describes it: \<open>g\<close> as long as \<open>x0\<close>, a square
  coefficient matrix with 1, 2 or \<open>W\<close> rows, and a size that the kernel's \<open>int\<close> parameter
  \<open>x0_size\<close> can hold.
\<close>

definition valid_call :: "'a list list \<Rightarrow> 'a list \<Rightarrow> 'a list \<Rightarrow> bool" where
  "valid_call F x0 g \<longleftrightarrow>
     length g = length x0 \<and> length x0 < 2 ^ 31 \<and> (\<forall>row \<in> set F. length row = length F)
     \<and> (length F = 1 \<or> length F = 2 \<or> length F = length x0)"

text \<open>
  The pair \<open>(k, k + W div 2)\<close> after the loop of its thread, for a method that is not null:
  the coefficients are the four entries of a 2 x 2 matrix, or the entries at \<open>k\<close> and
  \<open>k + W div 2\<close> of a larger one.
\<close>

definition pair_result ::
  "('a \<Rightarrow> 'a \<Rightarrow> 'a \<Rightarrow> 'a \<Rightarrow> 'a) \<Rightarrow> 'a list list \<Rightarrow> 'a::plus list \<Rightarrow> 'a list \<Rightarrow> 'a \<Rightarrow> int \<Rightarrow> nat \<Rightarrow> 'a \<times> 'a"
where
  "pair_result f F x0 g dt steps k =
     (let h = length x0 div 2;
          (i, j) = (if length F = 2 then (0, 1) else (k, k + h))
      in pair_steps f (F ! i ! i) (F ! i ! j) (F ! j ! i) (F ! j ! j) (g ! k) (g ! (k + h)) dt
           (nat steps) (x0 ! k, x0 ! (k + h)))"

section \<open>Lemmas on faults, thread indices and launches\<close>

lemma upt_block: "[0..<Suc m * n] = [0..<m * n] @ map (\<lambda>t. m * n + t) [0..<n]"
proof -
  have "[0..<Suc m * n] = [0..<m * n + n]" by (simp add: add.commute)
  also have "\<dots> = [0..<m * n] @ [m * n..<m * n + n]"
    by (rule upt_add_eq_append) simp
  also have "[m * n..<m * n + n] = map (\<lambda>t. t + m * n) [0..<n]"
    by (simp only: map_add_upt add.commute)
  also have "\<dots> = map (\<lambda>t. m * n + t) [0..<n]"
    by (simp only: add.commute)
  finally show ?thesis .
qed

lemma concat_blocks:
  "concat (map (\<lambda>b. map (\<lambda>t. f (b * n + t)) [0..<n]) [0..<m]) = map f [0..<m * n]"
proof (induction m)
  case 0
  show ?case by simp
next
  case (Suc m)
  have "concat (map (\<lambda>b. map (\<lambda>t. f (b * n + t)) [0..<n]) [0..<Suc m])
      = map f [0..<m * n] @ map (\<lambda>t. f (m * n + t)) [0..<n]"
    using Suc by simp
  also have "\<dots> = map f ([0..<m * n] @ map (\<lambda>t. m * n + t) [0..<n])"
    by (simp add: comp_def)
  finally show ?case by (simp only: upt_block)
qed

lemma int32_nat: "int k < 2 ^ 31 \<Longrightarrow> int32 (int k) = int k"
  by (simp add: int32_def)

lemma sdiv_nonneg: "0 \<le> a \<Longrightarrow> 0 < b \<Longrightarrow> (a::int) sdiv b = a div b"
  by (simp add: signed_divide_int_def sgn_if)

lemma thread_ids_small:
  assumes "int (B * n) \<le> 2 ^ 31"
  shows "thread_ids (int B) (int n) = map int [0..<B * n]"
proof -
  have in_range: "int32 ((int b * int n + int t) mod 2 ^ 32) = int (b * n + t)"
    if "b < B" "t < n" for b t
  proof -
    have "b * n + t < B * n"
    proof -
      have "b * n + t < b * n + n" using that by simp
      also have "\<dots> = Suc b * n" by simp
      also have "\<dots> \<le> B * n" using that by (intro mult_le_mono1) simp
      finally show ?thesis .
    qed
    then have "int (b * n + t) < 2 ^ 31" using assms by linarith
    then have lt: "int (b * n + t) < 2 ^ 31" .
    have "int (b * n + t) mod 2 ^ 32 = int (b * n + t)"
      by (rule mod_pos_pos_trivial) (use lt in simp_all)
    moreover have "int32 (int (b * n + t)) = int (b * n + t)"
      using lt by (rule int32_nat)
    moreover have "int b * int n + int t = int (b * n + t)" by simp
    ultimately show ?thesis by (simp only:)
  qed
  have "thread_ids (int B) (int n) =
      concat (map (\<lambda>b. map (\<lambda>t. int (b * n + t)) [0..<n]) [0..<B])"
    unfolding thread_ids_def nat_int
  proof (intro arg_cong[where f = concat] map_cong refl)
    fix b t
    assume "b \<in> set [0..<B]" and "t \<in> set [0..<n]"
    then have "b < B" and "t < n" by simp_all
    then show "int32 ((int b * int n + int t) mod 2 ^ 32) = int (b * n + t)"
      by (rule in_range)
  qed
  then show ?thesis by (simp only: concat_blocks)
qed

lemma blocks_small:
  assumes "W < 2 ^ 31"
  shows "int32 ((int W + 512 - 1) sdiv 512) = int ((W + 511) div 512)"
    and "W \<le> (W + 511) div 512 * 512" and "int ((W + 511) div 512 * 512) \<le> 2 ^ 31"
proof -
  have "(int W + 512 - 1) sdiv 512 = (int W + 511) div 512"
    by (simp add: sdiv_nonneg)
  also have "\<dots> = int ((W + 511) div 512)" by (simp add: zdiv_int)
  finally have e: "(int W + 512 - 1) sdiv 512 = int ((W + 511) div 512)" .
  have dm: "(W + 511) div 512 * 512 + (W + 511) mod 512 = W + 511"
    by (rule div_mult_mod_eq)
  have "(W + 511) mod 512 < 512" by simp
  with dm show "W \<le> (W + 511) div 512 * 512" by linarith
  have "W + 511 \<le> 2147483647 + 511" using assms by simp
  then have "(W + 511) div 512 \<le> (2147483647 + 511) div 512" by (rule div_le_mono)
  then have "(W + 511) div 512 \<le> 4194304" by simp
  then have "(W + 511) div 512 * 512 \<le> 4194304 * 512" by (intro mult_le_mono1)
  then show le: "int ((W + 511) div 512 * 512) \<le> 2 ^ 31" by simp
  then have "int ((W + 511) div 512) < 2 ^ 31" by simp
  then have "int32 (int ((W + 511) div 512)) = int ((W + 511) div 512)"
    by (rule int32_nat)
  then show "int32 ((int W + 512 - 1) sdiv 512) = int ((W + 511) div 512)"
    unfolding e .
qed

lemma and_then_Inl [simp]: "and_then (Inl e) f = Inl e"
  by (simp add: and_then_def)

lemma and_then_Inr [simp]: "and_then (Inr v) f = f v"
  by (simp add: and_then_def)

lemma and_then_eq_Inr:
  "and_then m f = Inr y \<longleftrightarrow> (\<exists>v. m = Inr v \<and> f v = Inr y)"
  by (cases m) simp_all

lemma and_then_assoc:
  "and_then (and_then m f) g = and_then m (\<lambda>v. and_then (f v) g)"
  by (cases m) simp_all

lemma at1_nat: "k < length a \<Longrightarrow> at1 a (int k) = Inr (a ! k)"
  by (simp add: at1_def)

lemma at1_eq_Inr: "at1 a i = Inr v \<longleftrightarrow> 0 \<le> i \<and> i < int (length a) \<and> v = a ! nat i"
  by (auto simp: at1_def)

lemma at2_nat: "i < length a \<Longrightarrow> j < length (a ! i) \<Longrightarrow> at2 a (int i) (int j) = Inr (a ! i ! j)"
  by (simp add: at2_def at1_nat)

lemma store_all_length: "store_all ws a = Inr a' \<Longrightarrow> length a' = length a"
  by (induction ws a rule: store_all.induct) (auto split: if_splits)

lemma run_threads_append:
  "run_threads th (xs @ ys) s = and_then (run_threads th xs s) (run_threads th ys)"
proof (induction xs arbitrary: s)
  case Nil
  show ?case by (cases s) simp
next
  case (Cons tid xs)
  obtain a st where s: "s = (a, st)" by (cases s)
  show ?case
    unfolding s by (simp add: and_then_assoc Cons.IH)
qed

lemma run_threads_idle:
  assumes "\<And>tid a. tid \<in> set tids \<Longrightarrow> th a tid = Inr []"
  shows "run_threads th tids (a, st) = Inr (a, st)"
  using assms by (induction tids) simp_all

lemma run_threads_cong:
  assumes "\<And>tid b. tid \<in> set tids \<Longrightarrow> length b = length a \<Longrightarrow> th b tid = th' b tid"
  shows "run_threads th tids (a, st) = run_threads th' tids (a, st)"
  using assms
proof (induction tids arbitrary: a st)
  case Nil
  show ?case by simp
next
  case (Cons tid tids)
  have eq: "th a tid = th' a tid" using Cons.prems by simp
  show ?case
  proof (cases "th' a tid")
    case (Inl e)
    then show ?thesis using eq by simp
  next
    case (Inr ws)
    show ?thesis
    proof (cases "store_all ws a")
      case (Inl e)
      then show ?thesis using eq Inr by simp
    next
      case (Inr b)
      have "length b = length a" using Inr by (rule store_all_length)
      then have "run_threads th tids (b, st @ map fst ws) = run_threads th' tids (b, st @ map fst ws)"
        using Cons.prems by (intro Cons.IH) simp
      then show ?thesis using eq \<open>th' a tid = Inr ws\<close> Inr by simp
    qed
  qed
qed

text \<open>a run that returns has run every thread to its end, on an array of the same length\<close>
lemma run_threads_all_return:
  assumes "run_threads th tids (a, st) = Inr r" and "tid \<in> set tids"
  shows "\<exists>b ws. length b = length a \<and> th b tid = Inr ws"
  using assms
proof (induction tids arbitrary: a st)
  case Nil
  then show ?case by simp
next
  case (Cons t tids)
  from Cons.prems(1) obtain ws b where t: "th a t = Inr ws" and b: "store_all ws a = Inr b"
    and rest: "run_threads th tids (b, st @ map fst ws) = Inr r"
    by (auto simp: and_then_eq_Inr)
  show ?case
  proof (cases "tid = t")
    case True
    then show ?thesis using t by blast
  next
    case False
    then have "tid \<in> set tids" using Cons.prems(2) by simp
    then obtain c ws' where "length c = length b" "th c tid = Inr ws'"
      using Cons.IH[OF rest] by blast
    then show ?thesis using store_all_length[OF b] by auto
  qed
qed


lemma run_single:
  assumes th: "\<And>k b. k < n \<Longrightarrow> length b = length x0 \<Longrightarrow> b ! k = x0 ! k
                 \<Longrightarrow> th b (int k) = Inr [(int k, v k)]"
    and n: "n \<le> length x0"
  shows "run_threads th (map int [0..<n]) (x0, st)
       = Inr (map (\<lambda>i. if i < n then v i else x0 ! i) [0..<length x0], st @ map int [0..<n])"
  using assms
proof (induction n)
  case 0
  then show ?case by (simp add: map_nth)
next
  case (Suc n)
  let ?b = "map (\<lambda>i. if i < n then v i else x0 ! i) [0..<length x0]"
  have IH: "run_threads th (map int [0..<n]) (x0, st) = Inr (?b, st @ map int [0..<n])"
    using Suc.prems by (intro Suc.IH) simp_all
  have n: "n < length x0" using Suc.prems by simp
  have t: "th ?b (int n) = Inr [(int n, v n)]"
    using n by (intro Suc.prems(1)) simp_all
  have upd: "?b[n := v n] = map (\<lambda>i. if i < Suc n then v i else x0 ! i) [0..<length x0]"
    using n by (intro nth_equalityI) (auto simp: nth_list_update less_Suc_eq)
  show ?case
    using n by (simp add: run_threads_append IH t upd)
qed

lemma run_pairs:
  assumes th: "\<And>k b. k < n \<Longrightarrow> length b = length x0 \<Longrightarrow> b ! k = x0 ! k
                 \<Longrightarrow> b ! (k + h) = x0 ! (k + h)
                 \<Longrightarrow> th b (int k) = Inr [(int k, v1 k), (int k + int h, v2 k)]"
    and n: "n \<le> h" and h: "2 * h \<le> length x0"
  shows "run_threads th (map int [0..<n]) (x0, st)
       = Inr (map (\<lambda>i. if i < n then v1 i else if h \<le> i \<and> i < h + n then v2 (i - h) else x0 ! i)
                [0..<length x0],
              st @ concat (map (\<lambda>k. [int k, int k + int h]) [0..<n]))"
  using th n
proof (induction n)
  case 0
  have "map (\<lambda>i. if h \<le> i \<and> i < h then v2 (i - h) else x0 ! i) [0..<length x0] = x0"
    by (intro nth_equalityI) auto
  then show ?case by simp
next
  case (Suc n)
  let ?b = "map (\<lambda>i. if i < n then v1 i else if h \<le> i \<and> i < h + n then v2 (i - h) else x0 ! i)
              [0..<length x0]"
  have IH: "run_threads th (map int [0..<n]) (x0, st)
      = Inr (?b, st @ concat (map (\<lambda>k. [int k, int k + int h]) [0..<n]))"
    using Suc.prems by (intro Suc.IH) simp_all
  have n: "n < h" "n < length x0" "n + h < length x0" using Suc.prems h by simp_all
  have t: "th ?b (int n) = Inr [(int n, v1 n), (int n + int h, v2 n)]"
    using n by (intro Suc.prems(1)) simp_all
  have upd: "?b[n := v1 n, n + h := v2 n]
      = map (\<lambda>i. if i < Suc n then v1 i else if h \<le> i \<and> i < h + Suc n then v2 (i - h) else x0 ! i)
          [0..<length x0]"
    using n by (intro nth_equalityI) (auto simp: nth_list_update less_Suc_eq)
  have nat: "nat (int n + int h) = n + h" by simp
  show ?case
    using n by (simp add: run_threads_append IH t upd nat del: of_nat_add)
qed

lemma single_loop_returns:
  "method = Some f \<or> n = 0 \<Longrightarrow>
   single_loop method F_in g_in dt n x = Inr (single_steps f F_in g_in dt n x)"
  by (induction n arbitrary: x) (auto simp: call_def)

lemma pair_loop_returns:
  "method = Some f \<or> n = 0 \<Longrightarrow>
   pair_loop method UL UR LL LR g1 g2 dt n (x1, x2) = Inr (pair_steps f UL UR LL LR g1 g2 dt n (x1, x2))"
  by (induction n arbitrary: x1 x2) (auto simp: call_def Let_def)



lemma sdiv_2_nat: "int W sdiv 2 = int (W div 2)"
  by (simp add: sdiv_nonneg zdiv_int)

lemma compact_diagonal_thread:
  assumes "method = Some f \<or> nat steps = 0"
    and "k < W" "k < length b" "k < length g" "at2 F 0 0 = Inr c"
  shows "compact_diagonal_solver method F b g dt steps (int W) (int k)
       = Inr [(int k, single_steps f c (g ! k) dt (nat steps) (b ! k))]"
  using assms by (simp add: compact_diagonal_solver_def at1_nat single_loop_returns)

lemma at1_add: "k + h < length a \<Longrightarrow> at1 a (int k + int h) = Inr (a ! (k + h))"
  using at1_nat[of "k + h" a] by simp

lemma compact_skew_symmetric_thread:
  assumes "method = Some f \<or> nat steps = 0"
    and "k < W div 2" "k + W div 2 < length b" "k + W div 2 < length g"
    and "at2 F 0 0 = Inr UL" "at2 F 0 1 = Inr UR" "at2 F 1 0 = Inr LL" "at2 F 1 1 = Inr LR"
    and "P = pair_steps f UL UR LL LR (g ! k) (g ! (k + W div 2)) dt (nat steps)
               (b ! k, b ! (k + W div 2))"
  shows "compact_skew_symmetric_solver method F b g dt steps (int W) (int k)
       = Inr [(int k, fst P), (int k + int (W div 2), snd P)]"
  using assms
  by (simp add: compact_skew_symmetric_solver_def sdiv_2_nat at1_nat at1_add
      pair_loop_returns split_beta del: of_nat_add)

lemma general_skew_symmetric_thread:
  assumes "method = Some f \<or> nat steps = 0"
    and "k < W div 2" "k + W div 2 < length b" "k + W div 2 < length g"
    and "at2 F (int k) (int k) = Inr UL" "at2 F (int k) (int k + int (W div 2)) = Inr UR"
    and "at2 F (int k + int (W div 2)) (int k) = Inr LL"
    and "at2 F (int k + int (W div 2)) (int k + int (W div 2)) = Inr LR"
    and "P = pair_steps f UL UR LL LR (g ! k) (g ! (k + W div 2)) dt (nat steps)
               (b ! k, b ! (k + W div 2))"
  shows "general_skew_symmetric_solver method F b g dt steps (int W) (int k)
       = Inr [(int k, fst P), (int k + int (W div 2), snd P)]"
  using assms
  by (simp add: general_skew_symmetric_solver_def sdiv_2_nat at1_nat at1_add
      pair_loop_returns split_beta del: of_nat_add)

lemma solver_idle:
  assumes "int (if length F = 1 then W else W div 2) \<le> tid"
  shows "solver (switch_F_size (int (length F))) method F a g dt steps (int W) tid = Inr []"
  using assms
  by (auto simp: switch_F_size_def compact_diagonal_solver_def compact_skew_symmetric_solver_def
      general_skew_symmetric_solver_def sdiv_2_nat simp del: of_nat_add)

lemma solve_cuda_run_active:
  assumes W: "length x0 < 2 ^ 31"
  shows "solve_cuda_run F x0 g dt steps name
       = run_threads
           (\<lambda>x0_a. solver (switch_F_size (int (length F))) (h_methods name) F x0_a g dt steps
                      (int (length x0)))
           (map int [0..<(if length F = 1 then length x0 else length x0 div 2)]) (x0, [])"
proof -
  let ?W = "length x0"
  let ?B = "(?W + 511) div 512"
  let ?n = "if length F = 1 then ?W else ?W div 2"
  let ?th = "\<lambda>x0_a. solver (switch_F_size (int (length F))) (h_methods name) F x0_a g dt steps (int ?W)"
  have W32: "int32 (int ?W) = int ?W"
    using W by (intro int32_nat) simp
  have ids: "thread_ids (int ?B) 512 = map int [0..<?B * 512]"
    using thread_ids_small[of ?B 512] blocks_small(3)[OF W] by simp
  have "?n \<le> ?B * 512" using blocks_small(2)[OF W] by auto
  then have "[0..<?B * 512] = [0..<?n] @ [?n..<?B * 512]"
    using upt_add_eq_append[of 0 ?n "?B * 512 - ?n"] by simp
  then have split: "map int [0..<?B * 512] = map int [0..<?n] @ map int [?n..<?B * 512]"
    by (metis map_append)
  have idle: "run_threads ?th (map int [?n..<?B * 512]) s = Inr s" for s
  proof -
    obtain a st where s: "s = (a, st)" by (cases s)
    show ?thesis unfolding s
    proof (rule run_threads_idle)
      fix tid b
      assume "tid \<in> set (map int [?n..<?B * 512])"
      then have "int ?n \<le> tid" by auto
      then show "?th b tid = Inr []" by (rule solver_idle)
    qed
  qed
  have "solve_cuda_run F x0 g dt steps name = run_threads ?th (map int [0..<?B * 512]) (x0, [])"
    unfolding solve_cuda_run_def Let_def launch_def blocks_small(1)[OF W] W32 ids ..
  also have "\<dots> = and_then (run_threads ?th (map int [0..<?n]) (x0, [])) (\<lambda>s. Inr s)"
    unfolding split run_threads_append using idle by presburger
  also have "\<dots> = run_threads ?th (map int [0..<?n]) (x0, [])"
    by (cases "run_threads ?th (map int [0..<?n]) (x0, [])") simp_all
  finally show ?thesis .
qed

lemma valid_at2:
  assumes "valid_call F x0 g" "i < length F" "j < length F"
  shows "at2 F (int i) (int j) = Inr (F ! i ! j)"
  using assms by (intro at2_nat) (auto simp: valid_call_def)

lemma solve_cuda_run_diagonal:
  assumes v: "valid_call F x0 g" and F: "length F = 1"
    and m: "h_methods name = Some f \<or> nat steps = 0"
  shows "solve_cuda_run F x0 g dt steps name
       = Inr (map (\<lambda>i. single_steps f (F ! 0 ! 0) (g ! i) dt (nat steps) (x0 ! i)) [0..<length x0],
              map int [0..<length x0])"
proof -
  let ?v = "\<lambda>i. single_steps f (F ! 0 ! 0) (g ! i) dt (nat steps) (x0 ! i)"
  have W: "length x0 < 2 ^ 31" and g: "length g = length x0"
    using v by (simp_all add: valid_call_def)
  have c: "at2 F 0 0 = Inr (F ! 0 ! 0)"
    using valid_at2[OF v, of 0 0] F by simp
  have "solve_cuda_run F x0 g dt steps name
      = run_threads (\<lambda>x0_a. compact_diagonal_solver (h_methods name) F x0_a g dt steps (int (length x0)))
          (map int [0..<length x0]) (x0, [])"
    using solve_cuda_run_active[OF W, of F g dt steps name] F by (simp add: switch_F_size_def)
  also have "\<dots> = Inr (map (\<lambda>i. if i < length x0 then ?v i else x0 ! i) [0..<length x0],
                          [] @ map int [0..<length x0])"
  proof (rule run_single)
    fix k b
    assume "k < length x0" "length b = length x0" "b ! k = x0 ! k"
    then show "compact_diagonal_solver (h_methods name) F b g dt steps (int (length x0)) (int k)
        = Inr [(int k, ?v k)]"
      using compact_diagonal_thread[OF m, of k "length x0" b g F "F ! 0 ! 0" dt] g c by simp
  qed simp
  also have "map (\<lambda>i. if i < length x0 then ?v i else x0 ! i) [0..<length x0] = map ?v [0..<length x0]"
    by (intro map_cong) simp_all
  finally show ?thesis by simp
qed

lemma paired_thread_valid:
  assumes v: "valid_call F x0 g" and F: "length F \<noteq> 1"
    and m: "method = Some f \<or> nat steps = 0"
    and k: "k < length x0 div 2"
    and b: "length b = length x0" "b ! k = x0 ! k"
      "b ! (k + length x0 div 2) = x0 ! (k + length x0 div 2)"
  shows "solver (switch_F_size (int (length F))) method F b g dt steps (int (length x0)) (int k)
       = Inr [(int k, fst (pair_result f F x0 g dt steps k)),
              (int k + int (length x0 div 2), snd (pair_result f F x0 g dt steps k))]"
proof (cases "length F = 2")
  let ?h = "length x0 div 2"
  let ?P = "pair_result f F x0 g dt steps"
  have g: "length g = length x0" using v by (simp add: valid_call_def)
  case True
  have "compact_skew_symmetric_solver method F b g dt steps (int (length x0)) (int k)
      = Inr [(int k, fst (?P k)), (int k + int ?h, snd (?P k))]"
  proof (rule compact_skew_symmetric_thread[OF m k])
    show "k + ?h < length b" "k + ?h < length g" using k b g by simp_all
    show "at2 F 0 0 = Inr (F ! 0 ! 0)" "at2 F 0 1 = Inr (F ! 0 ! 1)"
      "at2 F 1 0 = Inr (F ! 1 ! 0)" "at2 F 1 1 = Inr (F ! 1 ! 1)"
      using valid_at2[OF v, of 0 0] valid_at2[OF v, of 0 1] valid_at2[OF v, of 1 0]
        valid_at2[OF v, of 1 1] True by simp_all
    show "?P k = pair_steps f (F ! 0 ! 0) (F ! 0 ! 1) (F ! 1 ! 0) (F ! 1 ! 1) (g ! k) (g ! (k + ?h)) dt
        (nat steps) (b ! k, b ! (k + ?h))"
      using True b by (simp add: pair_result_def Let_def)
  qed
  then show ?thesis using True by (simp add: switch_F_size_def)
next
  let ?h = "length x0 div 2"
  let ?P = "pair_result f F x0 g dt steps"
  have g: "length g = length x0" using v by (simp add: valid_call_def)
  case False
  then have FW: "length F = length x0" using v F by (auto simp: valid_call_def)
  have kh: "k + ?h < length x0" using k by simp
  have "general_skew_symmetric_solver method F b g dt steps (int (length x0)) (int k)
      = Inr [(int k, fst (?P k)), (int k + int ?h, snd (?P k))]"
  proof (rule general_skew_symmetric_thread[OF m k])
    show "k + ?h < length b" "k + ?h < length g" using kh b g by simp_all
    show "at2 F (int k) (int k) = Inr (F ! k ! k)"
      using valid_at2[OF v, of k k] kh FW by simp
    show "at2 F (int k) (int k + int ?h) = Inr (F ! k ! (k + ?h))"
      using valid_at2[OF v, of k "k + ?h"] kh FW by simp
    show "at2 F (int k + int ?h) (int k) = Inr (F ! (k + ?h) ! k)"
      using valid_at2[OF v, of "k + ?h" k] kh FW by simp
    show "at2 F (int k + int ?h) (int k + int ?h) = Inr (F ! (k + ?h) ! (k + ?h))"
      using valid_at2[OF v, of "k + ?h" "k + ?h"] kh FW by simp
    show "?P k = pair_steps f (F ! k ! k) (F ! k ! (k + ?h)) (F ! (k + ?h) ! k)
        (F ! (k + ?h) ! (k + ?h)) (g ! k) (g ! (k + ?h)) dt (nat steps) (b ! k, b ! (k + ?h))"
      using False b by (simp add: pair_result_def Let_def)
  qed
  then show ?thesis using False F by (simp add: switch_F_size_def)
qed

lemma solve_cuda_run_paired:
  assumes v: "valid_call F x0 g" and F: "length F \<noteq> 1"
    and m: "h_methods name = Some f \<or> nat steps = 0"
  shows "solve_cuda_run F x0 g dt steps name
       = Inr (map (\<lambda>i. if i < length x0 div 2 then fst (pair_result f F x0 g dt steps i)
                       else if i < 2 * (length x0 div 2)
                         then snd (pair_result f F x0 g dt steps (i - length x0 div 2))
                       else x0 ! i) [0..<length x0],
              concat (map (\<lambda>k. [int k, int k + int (length x0 div 2)]) [0..<length x0 div 2]))"
proof -
  let ?h = "length x0 div 2"
  let ?P = "pair_result f F x0 g dt steps"
  let ?th = "\<lambda>x0_a. solver (switch_F_size (int (length F))) (h_methods name) F x0_a g dt steps
                      (int (length x0))"
  have W: "length x0 < 2 ^ 31"
    using v by (simp add: valid_call_def)
  have thread: "?th b (int k) = Inr [(int k, fst (?P k)), (int k + int ?h, snd (?P k))]"
    if "k < ?h" "length b = length x0" "b ! k = x0 ! k" "b ! (k + ?h) = x0 ! (k + ?h)" for k b
    using v F m that by (rule paired_thread_valid)
  have "solve_cuda_run F x0 g dt steps name = run_threads ?th (map int [0..<?h]) (x0, [])"
    using solve_cuda_run_active[OF W, of F g dt steps name] F by simp
  also have "\<dots> = Inr (map (\<lambda>i. if i < ?h then fst (?P i)
                                  else if ?h \<le> i \<and> i < ?h + ?h then snd (?P (i - ?h))
                                  else x0 ! i) [0..<length x0],
                          [] @ concat (map (\<lambda>k. [int k, int k + int ?h]) [0..<?h]))"
    by (rule run_pairs) (use thread in simp_all)
  also have "map (\<lambda>i. if i < ?h then fst (?P i)
                     else if ?h \<le> i \<and> i < ?h + ?h then snd (?P (i - ?h)) else x0 ! i) [0..<length x0]
      = map (\<lambda>i. if i < ?h then fst (?P i)
                  else if i < 2 * ?h then snd (?P (i - ?h)) else x0 ! i) [0..<length x0]"
    by (intro map_cong) auto
  finally show ?thesis by simp
qed

section \<open>The stepping functions compute the documented increments\<close>

text \<open>
  C5. For every coefficient, scale input and step size, \<open>rk4_method\<close> returns the four-stage
  weighted sum of the specification: \<open>f1 = coefficient * scale * dt\<close>; \<open>c2 = dt * f1 / 2\<close>,
  \<open>f2 = coefficient * (scale + c2) * (dt / 2)\<close>; \<open>c3 = dt * f2 / 2\<close>,
  \<open>f3 = coefficient * (scale + c3) * (dt / 2)\<close>; \<open>c4 = dt * f3\<close>,
  \<open>f4 = coefficient * (scale + c4) * dt\<close>; the increment is
  \<open>(f1 + 2 * f2 + 2 * f3 + f4) / 6\<close>. The stages are written out below without any
  abbreviation, and the equation holds whatever the arithmetic is.
\<close>

theorem rk4_method_four_stage_sum:
  fixes coefficient scale dt current_value :: "'a::{plus,times,inverse,numeral}"
  shows "rk4_method coefficient current_value scale dt =
    (coefficient * scale * dt
     + 2 * (coefficient * (scale + dt * (coefficient * scale * dt) / 2) * (dt / 2))
     + 2 * (coefficient
             * (scale + dt * (coefficient * (scale + dt * (coefficient * scale * dt) / 2) * (dt / 2)) / 2)
             * (dt / 2))
     + coefficient
         * (scale + dt * (coefficient
             * (scale + dt * (coefficient * (scale + dt * (coefficient * scale * dt) / 2) * (dt / 2)) / 2)
             * (dt / 2)))
         * dt) / 6"
  by (simp only: rk4_method_def Let_def)

text \<open>
  C6. For every coefficient, current value, scale input and step size, \<open>euler_method\<close>
  returns \<open>coefficient * scale_input * dt\<close>, and the increment is the same for every
  current value.
\<close>

theorem euler_method_increment:
  fixes coefficient scale_input dt current_value other_value :: "'a::times"
  shows "euler_method coefficient current_value scale_input dt = coefficient * scale_input * dt
       \<and> euler_method coefficient current_value scale_input dt
           = euler_method coefficient other_value scale_input dt"
  by (simp add: euler_method_def)

section \<open>Calls with no step, and the choice of the kernel\<close>

lemma solve_cuda_no_steps:
  assumes v: "valid_call F x0 g" and s: "nat steps = 0"
  shows "solve_cuda F x0 g dt steps name = Inr x0"
proof (cases "length F = 1")
  case True
  have "map (\<lambda>i. x0 ! i) [0..<length x0] = x0" by (rule map_nth)
  then show ?thesis
    using solve_cuda_run_diagonal[OF v True, of name undefined steps dt] s
    by (simp add: solve_cuda_def)
next
  case False
  let ?h = "length x0 div 2"
  have "map (\<lambda>i. if i < ?h then fst (pair_result undefined F x0 g dt steps i)
                  else if i < 2 * ?h then snd (pair_result undefined F x0 g dt steps (i - ?h))
                  else x0 ! i) [0..<length x0] = x0"
    using s by (intro nth_equalityI) (auto simp: pair_result_def Let_def split_beta)
  then show ?thesis
    using solve_cuda_run_paired[OF v False, of name undefined steps dt] s
    by (simp add: solve_cuda_def)
qed

text \<open>
  Sizes from \<open>2 ^ 31\<close> on. With exactly \<open>2 ^ 31\<close> elements \<open>x0_size\<close> is \<open>- 2147483648\<close>, every
  \<open>tid\<close> is at least 0 and no thread passes its guard: the call returns the state as it
  was, whatever \<open>steps\<close> is. With one element more the last block has a negative \<open>tid\<close>
  below \<open>x0_size\<close>.
\<close>

lemma thread_ids_more:
  "thread_ids (int B + 1) (int n)
     = thread_ids (int B) (int n)
       @ map (\<lambda>t. int32 ((int B * int n + int t) mod 2 ^ 32)) [0..<n]"
proof -
  have "nat (int B + 1) = Suc B" by simp
  then show ?thesis by (simp add: thread_ids_def)
qed

lemma nonneg_of_nat_list: "tid \<in> set (map int xs) \<Longrightarrow> 0 \<le> tid"
  by auto

lemma launch_wrapped_thread:
  assumes full: "int (B * n) = 2147483648" and n: "0 < n"
    and idle: "\<And>a tid. 0 \<le> tid \<Longrightarrow> th a tid = Inr []"
    and fault: "th x0 (- 2147483648) = Inl e"
  shows "launch (int B + 1) (int n) th x0 = Inl e"
proof -
  let ?last = "map (\<lambda>t. int32 ((int B * int n + int t) mod 2 ^ 32)) [0..<n]"
  have ids: "thread_ids (int B) (int n) = map int [0..<B * n]"
    by (rule thread_ids_small) (simp only: full, simp)
  have first: "run_threads th (map int [0..<B * n]) (x0, []) = Inr (x0, [])"
    by (rule run_threads_idle) (rule idle, rule nonneg_of_nat_list)
  have "int B * int n = 2147483648" using full by simp
  then have "int32 ((int B * int n + int 0) mod 2 ^ 32) = - 2147483648"
    by (simp add: int32_def)
  moreover have "[0..<n] = 0 # [Suc 0..<n]" using n by (rule upt_conv_Cons)
  ultimately have "?last = - 2147483648 # map (\<lambda>t. int32 ((int B * int n + int t) mod 2 ^ 32)) [Suc 0..<n]"
    by simp
  then have "run_threads th ?last (x0, []) = Inl e"
    using fault by simp
  then show ?thesis
    unfolding launch_def thread_ids_more ids run_threads_append first by simp
qed

lemma solve_cuda_wraps:
  fixes F :: "'a::{plus,times,inverse,numeral} list list"
  assumes W: "length x0 = 2 ^ 31 + 1" and F: "length F = 1"
  shows "solve_cuda F x0 g dt steps name = Inl OutOfBounds"
proof -
  have iW: "int (length x0) = 2147483649" using W by simp
  have size: "int32 (int (length x0)) = - 2147483647"
    unfolding iW by (simp add: int32_def)
  have blocks: "int32 ((int (length x0) + 512 - 1) sdiv 512) = int 4194304 + 1"
    unfolding iW by (simp add: int32_def signed_divide_int_def)
  have idle: "compact_diagonal_solver (h_methods name) F a g dt steps (- 2147483647) tid = Inr []"
    if "0 \<le> tid" for a :: "'a list" and tid
    using that by (simp add: compact_diagonal_solver_def)
  have "at1 x0 (- 2147483648) = Inl OutOfBounds" by (simp add: at1_def)
  then have fault: "compact_diagonal_solver (h_methods name) F x0 g dt steps (- 2147483647)
      (- 2147483648) = Inl OutOfBounds"
    by (simp add: compact_diagonal_solver_def)
  have "launch (int 4194304 + 1) (int 512)
      (\<lambda>x0_a. compact_diagonal_solver (h_methods name) F x0_a g dt steps (- 2147483647)) x0
      = Inl OutOfBounds"
    by (rule launch_wrapped_thread[where B = 4194304 and n = 512]) (simp_all add: idle fault)
  then have "solve_cuda_run F x0 g dt steps name = Inl OutOfBounds"
    unfolding solve_cuda_run_def Let_def size blocks using F
    by (simp add: switch_F_size_def)
  then show ?thesis by (simp add: solve_cuda_def)
qed

lemma solve_cuda_size_2_31:
  fixes F :: "'a::{plus,times,inverse,numeral} list list"
  assumes W: "length x0 = 2 ^ 31"
  shows "solve_cuda F x0 g dt steps name = Inr x0"
proof -
  let ?th = "\<lambda>x0_a. solver (switch_F_size (int (length F))) (h_methods name) F x0_a g dt steps
      (- 2147483648)"
  have iW: "int (length x0) = 2147483648" using W by simp
  have size: "int32 (int (length x0)) = - 2147483648"
    unfolding iW by (simp add: int32_def)
  have blocks: "int32 ((int (length x0) + 512 - 1) sdiv 512) = int 4194304"
    unfolding iW by (simp add: int32_def signed_divide_int_def)
  have half: "(- 2147483648 :: int) sdiv 2 = - 1073741824"
    by (simp add: signed_divide_int_def)
  have idle: "?th a tid = Inr []" if "0 \<le> tid" for a tid
    using that
    by (auto simp: switch_F_size_def compact_diagonal_solver_def compact_skew_symmetric_solver_def
        general_skew_symmetric_solver_def half)
  have ids: "thread_ids (int 4194304) (int 512) = map int [0..<4194304 * 512]"
    by (rule thread_ids_small) simp
  have "run_threads ?th (map int [0..<4194304 * 512]) (x0, []) = Inr (x0, [])"
    by (rule run_threads_idle) (rule idle, rule nonneg_of_nat_list)
  then have "launch (int 4194304) (int 512) ?th x0 = Inr (x0, [])"
    unfolding launch_def ids .
  then have "solve_cuda_run F x0 g dt steps name = Inr (x0, [])"
    unfolding solve_cuda_run_def Let_def size blocks by simp
  then show ?thesis by (simp add: solve_cuda_def)
qed

text \<open>
  C9 (amended). For all valid inputs (a square coefficient matrix with 1, 2 or \<open>W\<close> rows,
  state and scale vectors of equal length, any step size, any method name) whose state
  vector has at most \<open>2 ^ 31\<close> elements, \<open>solve\<close> with \<open>steps = 0\<close> leaves every element of
  the state vector unchanged. The bound is needed: the kernel receives the size and computes
  \<open>tid\<close> as 32-bit \<open>int\<close>, and for a larger state both wrap.
\<close>

theorem solve_cuda_zero_steps_identity:
  fixes F :: "'a::{plus,times,inverse,numeral} list list"
  assumes g: "length g = length x0" and W: "length x0 \<le> 2 ^ 31"
    and square: "\<forall>row \<in> set F. length row = length F"
    and shape: "length F = 1 \<or> length F = 2 \<or> length F = length x0"
  shows "solve_cuda F x0 g dt 0 name = Inr x0"
proof (cases "length x0 = 2 ^ 31")
  case True
  then show ?thesis by (rule solve_cuda_size_2_31)
next
  case False
  then have "length x0 < 2 ^ 31" using W by simp
  then have "valid_call F x0 g" using g square shape by (simp add: valid_call_def)
  then show ?thesis by (rule solve_cuda_no_steps) simp
qed

theorem solve_cuda_zero_steps_identity_witness:
  "length [1, 1, 1 :: real] = length [5, 6, 7 :: real] \<and> length [5, 6, 7 :: real] \<le> 2 ^ 31
   \<and> solve_cuda [[1, 2], [3, 4]] [5, 6, 7] [1, 1, 1 :: real] (1 / 2) 0 ''RK4'' = Inr [5, 6, 7]"
proof -
  have "solve_cuda [[1, 2], [3, 4]] [5, 6, 7] [1, 1, 1 :: real] (1 / 2) 0 ''RK4'' = Inr [5, 6, 7]"
    by (rule solve_cuda_zero_steps_identity) simp_all
  then show ?thesis by simp
qed

text \<open>
  The claim as stated fails for a state of \<open>2 ^ 31 + 1\<close> elements, a 1 x 1 matrix and no
  step: the kernel's \<open>x0_size\<close> is \<open>- 2147483647\<close>, the launch has \<open>4194305\<close> blocks, and the
  first thread of the last block has \<open>tid = - 2147483648\<close>, passes the guard
  \<open>tid < x0_size\<close> and reads \<open>x0_a[tid]\<close> out of range.
\<close>

theorem zero_steps_counterexample:
  "solve_cuda [[1]] (replicate (2 ^ 31 + 1) 0) (replicate (2 ^ 31 + 1) 0) (1 :: real) 0 ''Euler''
     = Inl OutOfBounds"
  by (rule solve_cuda_wraps) simp_all

text \<open>
  C7. The kernel is chosen from the leading dimension of the coefficient matrix and from
  nothing else: with one row the launch runs \<open>compact_diagonal_solver\<close>, with two rows
  \<open>compact_skew_symmetric_solver\<close>, with any other number of rows
  \<open>general_skew_symmetric_solver\<close>; the switch never yields \<open>general_solver\<close>.
\<close>

theorem dispatch_on_leading_dimension:
  "solve_cuda_run F x0 g dt steps name =
     launch (int32 ((int (length x0) + 512 - 1) sdiv 512)) 512
       (\<lambda>x0_a. (if length F = 1 then compact_diagonal_solver
                 else if length F = 2 then compact_skew_symmetric_solver
                 else general_skew_symmetric_solver)
                  (h_methods name) F x0_a g dt steps (int32 (int (length x0)))) x0
   \<and> switch_F_size F_size =
       (if F_size = 1 then CompactDiagonalSolver
        else if F_size = 2 then CompactSkewSymmetricSolver
        else GeneralSkewSymmetricSolver)
   \<and> switch_F_size F_size \<noteq> GeneralSolver"
  by (simp add: solve_cuda_run_def switch_F_size_def Let_def)

section \<open>The order of the update within a pair\<close>

lemma pair_loop_Some_Suc:
  "pair_loop (Some f) UL UR LL LR g1 g2 dt (Suc n) (a, b) =
     pair_loop (Some f) UL UR LL LR g1 g2 dt n
       (a + f UL a g1 dt + f UR b g2 dt,
        a + f UL a g1 dt + f UR b g2 dt + f LL (a + f UL a g1 dt + f UR b g2 dt) g1 dt
          + f LR b g2 dt)"
  by (simp add: call_def Let_def)

lemma pair_loop_Suc_end:
  "pair_loop (Some f) UL UR LL LR g1 g2 dt (Suc n) (a, b) =
     and_then (pair_loop (Some f) UL UR LL LR g1 g2 dt n (a, b))
       (pair_loop (Some f) UL UR LL LR g1 g2 dt (Suc 0))"
proof (induction n arbitrary: a b)
  case 0
  show ?case by (simp del: pair_loop.simps(2))
next
  case (Suc n)
  let ?y1 = "a + f UL a g1 dt + f UR b g2 dt"
  let ?y2 = "?y1 + f LL ?y1 g1 dt + f LR b g2 dt"
  have "pair_loop (Some f) UL UR LL LR g1 g2 dt (Suc (Suc n)) (a, b)
      = pair_loop (Some f) UL UR LL LR g1 g2 dt (Suc n) (?y1, ?y2)"
    by (rule pair_loop_Some_Suc)
  also have "\<dots> = and_then (pair_loop (Some f) UL UR LL LR g1 g2 dt n (?y1, ?y2))
                       (pair_loop (Some f) UL UR LL LR g1 g2 dt (Suc 0))"
    by (rule Suc.IH)
  also have "pair_loop (Some f) UL UR LL LR g1 g2 dt n (?y1, ?y2)
      = pair_loop (Some f) UL UR LL LR g1 g2 dt (Suc n) (a, b)"
    by (rule pair_loop_Some_Suc[symmetric])
  finally show ?case .
qed

lemma paired_thread_next_step:
  fixes K :: "int \<Rightarrow> fault + (int \<times> 'a::plus) list"
  assumes form: "\<And>s. K s =
      (if tid < h then
         and_then (at1 x0_a tid) (\<lambda>a. and_then (at1 x0_a (tid + h)) (\<lambda>b.
         and_then (pair_loop (Some f) UL UR LL LR g1 g2 dt (nat s) (a, b))
           (\<lambda>(x1, x2). Inr [(tid, x1), (tid + h, x2)])))
       else Inr [])"
    and steps: "0 \<le> steps"
    and prev: "K steps = Inr [(tid, x1), (tid + h, x2)]"
  shows "K (steps + 1) =
     Inr [(tid, x1 + f UL x1 g1 dt + f UR x2 g2 dt),
          (tid + h, x1 + f UL x1 g1 dt + f UR x2 g2 dt
                      + f LL (x1 + f UL x1 g1 dt + f UR x2 g2 dt) g1 dt + f LR x2 g2 dt)]"
proof -
  have guard: "tid < h"
    using prev form[of steps] by (auto split: if_splits)
  then obtain a b where a: "at1 x0_a tid = Inr a" and b: "at1 x0_a (tid + h) = Inr b"
    and loop: "pair_loop (Some f) UL UR LL LR g1 g2 dt (nat steps) (a, b) = Inr (x1, x2)"
    using prev form[of steps] by (auto simp: and_then_eq_Inr)
  have "nat (steps + 1) = Suc (nat steps)" using steps by simp
  then have "pair_loop (Some f) UL UR LL LR g1 g2 dt (nat (steps + 1)) (a, b)
      = pair_loop (Some f) UL UR LL LR g1 g2 dt (Suc 0) (x1, x2)"
    using pair_loop_Suc_end[of f UL UR LL LR g1 g2 dt "nat steps" a b] loop by simp
  then show ?thesis
    using guard a b form[of "steps + 1"] by (simp add: call_def Let_def)
qed

text \<open>
  C2. In both skew-symmetric kernels every time step updates the two elements of a pair
  \<open>(i, i + W/2)\<close> one after the other: element \<open>i\<close> first, and the value just computed for
  it is the one used for element \<open>i + W/2\<close> in the same step, as the base of the sum and as
  the current value passed to the method. Stated for the thread of a pair that passes the
  guard and reads \<open>a\<close> and \<open>b\<close> from the state, with \<open>i\<close> and \<open>j\<close> the rows and columns at
  which the kernel reads its coefficients: with one step the thread stores
  \<open>y1 = a + f UL a g1 dt + f UR b g2 dt\<close> and \<open>y2 = y1 + f LL y1 g1 dt + f LR b g2 dt\<close>; and
  for every number of steps the thread returns its two stores \<open>x1\<close> and \<open>x2\<close>, and with one
  step more it stores \<open>y1 = x1 + f UL x1 g1 dt + f UR x2 g2 dt\<close> and
  \<open>y2 = y1 + f LL y1 g1 dt + f LR x2 g2 dt\<close>.
\<close>

theorem paired_kernels_update_sequentially:
  fixes f :: "'a::plus \<Rightarrow> 'a \<Rightarrow> 'a \<Rightarrow> 'a \<Rightarrow> 'a"
  assumes k: "k = CompactSkewSymmetricSolver \<or> k = GeneralSkewSymmetricSolver"
    and ij: "(i, j) = (if k = CompactSkewSymmetricSolver then (0, 1)
                       else (tid, tid + x0_size sdiv 2))"
    and steps: "0 \<le> steps"
    and guard: "tid < x0_size sdiv 2"
    and x: "at1 x0_a tid = Inr a" "at1 x0_a (tid + x0_size sdiv 2) = Inr b"
    and g: "at1 g_a tid = Inr g1" "at1 g_a (tid + x0_size sdiv 2) = Inr g2"
    and F: "at2 F_a i i = Inr UL" "at2 F_a i j = Inr UR" "at2 F_a j i = Inr LL"
      "at2 F_a j j = Inr LR"
  shows "solver k (Some f) F_a x0_a g_a dt 1 x0_size tid
           = Inr [(tid, a + f UL a g1 dt + f UR b g2 dt),
                  (tid + x0_size sdiv 2,
                   a + f UL a g1 dt + f UR b g2 dt
                     + f LL (a + f UL a g1 dt + f UR b g2 dt) g1 dt + f LR b g2 dt)]
       \<and> (\<exists>x1 x2.
             solver k (Some f) F_a x0_a g_a dt steps x0_size tid
               = Inr [(tid, x1), (tid + x0_size sdiv 2, x2)]
           \<and> solver k (Some f) F_a x0_a g_a dt (steps + 1) x0_size tid
               = Inr [(tid, x1 + f UL x1 g1 dt + f UR x2 g2 dt),
                      (tid + x0_size sdiv 2,
                       x1 + f UL x1 g1 dt + f UR x2 g2 dt
                         + f LL (x1 + f UL x1 g1 dt + f UR x2 g2 dt) g1 dt + f LR x2 g2 dt)])"
proof -
  have form: "solver k (Some f) F_a x0_a g_a dt s x0_size tid =
      (if tid < x0_size sdiv 2 then
         and_then (at1 x0_a tid) (\<lambda>a. and_then (at1 x0_a (tid + x0_size sdiv 2)) (\<lambda>b.
         and_then (pair_loop (Some f) UL UR LL LR g1 g2 dt (nat s) (a, b))
           (\<lambda>(x1, x2). Inr [(tid, x1), (tid + x0_size sdiv 2, x2)])))
       else Inr [])" for s
    using k ij g F
    by (auto simp: compact_skew_symmetric_solver_def general_skew_symmetric_solver_def)
  obtain x1 x2 where p: "pair_steps f UL UR LL LR g1 g2 dt (nat steps) (a, b) = (x1, x2)"
    by (cases "pair_steps f UL UR LL LR g1 g2 dt (nat steps) (a, b)")
  have "pair_loop (Some f) UL UR LL LR g1 g2 dt (nat steps) (a, b) = Inr (x1, x2)"
    using pair_loop_returns[of "Some f" f "nat steps" UL UR LL LR g1 g2 dt a b] p by simp
  then have prev: "solver k (Some f) F_a x0_a g_a dt steps x0_size tid
      = Inr [(tid, x1), (tid + x0_size sdiv 2, x2)]"
    using form[of steps] guard x by simp
  have "solver k (Some f) F_a x0_a g_a dt (steps + 1) x0_size tid
      = Inr [(tid, x1 + f UL x1 g1 dt + f UR x2 g2 dt),
             (tid + x0_size sdiv 2,
              x1 + f UL x1 g1 dt + f UR x2 g2 dt
                + f LL (x1 + f UL x1 g1 dt + f UR x2 g2 dt) g1 dt + f LR x2 g2 dt)]"
    using form steps prev by (rule paired_thread_next_step)
  moreover have "solver k (Some f) F_a x0_a g_a dt 1 x0_size tid
      = Inr [(tid, a + f UL a g1 dt + f UR b g2 dt),
             (tid + x0_size sdiv 2,
              a + f UL a g1 dt + f UR b g2 dt
                + f LL (a + f UL a g1 dt + f UR b g2 dt) g1 dt + f LR b g2 dt)]"
    using form[of 1] guard x by (simp add: call_def Let_def)
  ultimately show ?thesis using prev by blast
qed

theorem paired_kernels_update_sequentially_witness:
  "solver CompactSkewSymmetricSolver (Some euler_method) [[1, 2], [3, 4]] [1, 2] [1, 1] (1 :: real) 1 2 0
     = Inr [(0, 4), (1, 11)]
   \<and> solver CompactSkewSymmetricSolver (Some euler_method) [[1, 2], [3, 4]] [1, 2] [1, 1] (1 :: real) 2 2 0
     = Inr [(0, 7), (1, 14)]
   \<and> solver GeneralSkewSymmetricSolver (Some euler_method)
       [[1, 2, 3, 4], [5, 6, 7, 8], [9, 10, 11, 12], [13, 14, 15, 16]] [1, 2, 3, 4] [1, 1, 1, 1]
       (1 :: real) 1 4 1
     = Inr [(1, 16), (3, 46)]"
proof -
  have sd: "(2 :: int) sdiv 2 = 1" "(4 :: int) sdiv 2 = 2" by (simp_all add: signed_divide_int_def)
  note c = paired_kernels_update_sequentially[where k = CompactSkewSymmetricSolver
      and f = "euler_method :: real \<Rightarrow> _" and i = 0 and j = 1 and tid = 0 and x0_size = 2
      and steps = 1 and F_a = "[[1, 2], [3, 4]]" and x0_a = "[1, 2]" and g_a = "[1, 1]"
      and a = 1 and b = 2 and ?g1.0 = 1 and ?g2.0 = 1 and UL = 1 and UR = 2 and LL = 3
      and LR = 4 and dt = 1]
  have c': "solver CompactSkewSymmetricSolver (Some euler_method) [[1, 2], [3, 4]] [1, 2] [1, 1]
        (1 :: real) 1 2 0 = Inr [(0, 4), (1, 11)]
      \<and> solver CompactSkewSymmetricSolver (Some euler_method) [[1, 2], [3, 4]] [1, 2] [1, 1]
        (1 :: real) 2 2 0 = Inr [(0, 7), (1, 14)]"
    using c by (auto simp: at1_def at2_def sd euler_method_def)
  note g = paired_kernels_update_sequentially[where k = GeneralSkewSymmetricSolver
      and f = "euler_method :: real \<Rightarrow> _" and i = 1 and j = 3 and tid = 1 and x0_size = 4
      and steps = 0
      and F_a = "[[1, 2, 3, 4], [5, 6, 7, 8], [9, 10, 11, 12], [13, 14, 15, 16]]"
      and x0_a = "[1, 2, 3, 4]" and g_a = "[1, 1, 1, 1]"
      and a = 2 and b = 4 and ?g1.0 = 1 and ?g2.0 = 1 and UL = 6 and UR = 8 and LL = 14
      and LR = 16 and dt = 1, THEN conjunct1]
  have g': "solver GeneralSkewSymmetricSolver (Some euler_method)
       [[1, 2, 3, 4], [5, 6, 7, 8], [9, 10, 11, 12], [13, 14, 15, 16]] [1, 2, 3, 4] [1, 1, 1, 1]
       (1 :: real) 1 4 1 = Inr [(1, 16), (3, 46)]"
    using g by (simp add: at1_def at2_def sd euler_method_def)
  show ?thesis using c' g' by simp
qed

section \<open>A method name that is not in the table\<close>









section \<open>A length mismatch between the state and the scale vector\<close>

lemma and_then_eq_Inl:
  "and_then m f = Inl e \<longleftrightarrow> m = Inl e \<or> (\<exists>v. m = Inr v \<and> f v = Inl e)"
  by (cases m) simp_all

lemma at1_fault: "at1 a i = Inl e \<Longrightarrow> e = OutOfBounds"
  by (auto simp: at1_def split: if_splits)

lemma at2_fault: "at2 a i j = Inl e \<Longrightarrow> e = OutOfBounds"
  by (auto simp: at2_def and_then_eq_Inl dest: at1_fault)

lemma call_fault: "call method F_in x g_in dt = Inl e \<Longrightarrow> e = NullMethodCall"
  by (auto simp: call_def split: option.splits)

lemma single_loop_fault:
  "single_loop method F_in g_in dt n x = Inl e \<Longrightarrow> e = NullMethodCall"
  by (induction n arbitrary: x) (auto simp: and_then_eq_Inl dest: call_fault)

lemma pair_loop_fault:
  "pair_loop method UL UR LL LR g1 g2 dt n (x1, x2) = Inl e \<Longrightarrow> e = NullMethodCall"
  by (induction n arbitrary: x1 x2) (auto simp: and_then_eq_Inl Let_def dest: call_fault)

lemma solver_fault:
  assumes "solver k method F b g dt steps xs tid = Inl e"
  shows "e = OutOfBounds \<or> e = NullMethodCall"
proof (cases k)
  case GeneralSolver
  then show ?thesis
    using assms
    by (auto simp: general_solver_def and_then_eq_Inl split: if_splits
        dest: at1_fault at2_fault single_loop_fault)
next
  case CompactDiagonalSolver
  then show ?thesis
    using assms
    by (auto simp: compact_diagonal_solver_def and_then_eq_Inl split: if_splits
        dest: at1_fault at2_fault single_loop_fault)
next
  case GeneralSkewSymmetricSolver
  then show ?thesis
    using assms
    by (auto simp: general_skew_symmetric_solver_def and_then_eq_Inl split: if_splits
        dest: at1_fault at2_fault pair_loop_fault)
next
  case CompactSkewSymmetricSolver
  then show ?thesis
    using assms
    by (auto simp: compact_skew_symmetric_solver_def and_then_eq_Inl split: if_splits
        dest: at1_fault at2_fault pair_loop_fault)
qed

lemma store_all_fault: "store_all ws a = Inl e \<Longrightarrow> e = OutOfBounds"
  by (induction ws a rule: store_all.induct) (auto split: if_splits)

lemma run_threads_fault:
  assumes "\<And>b tid e. th b tid = Inl e \<Longrightarrow> e = OutOfBounds \<or> e = NullMethodCall"
    and "run_threads th tids (a, st) = Inl e"
  shows "e = OutOfBounds \<or> e = NullMethodCall"
  using assms(2)
proof (induction tids arbitrary: a st)
  case Nil
  then show ?case by simp
next
  case (Cons tid tids)
  then show ?case
    by (auto simp: and_then_eq_Inl dest: assms(1) store_all_fault)
qed

lemma solve_cuda_fault:
  assumes "solve_cuda F x0 g dt steps name = Inl e"
  shows "e = OutOfBounds \<or> e = NullMethodCall"
proof -
  have "solve_cuda_run F x0 g dt steps name = Inl e"
    using assms by (cases "solve_cuda_run F x0 g dt steps name") (simp_all add: solve_cuda_def)
  then show ?thesis
    unfolding solve_cuda_run_def Let_def launch_def
    by (rule run_threads_fault[rotated]) (rule solver_fault)
qed

lemma at1_take: "i < int n \<Longrightarrow> at1 (take n g) i = at1 g i"
  by (auto simp: at1_def)

lemma solver_take_g:
  assumes "tid < int (if length F = 1 then W else W div 2)" 
  shows "solver (switch_F_size (int (length F))) method F b (take W g) dt steps (int W) tid
       = solver (switch_F_size (int (length F))) method F b g dt steps (int W) tid"
proof -
  consider "length F = 1" | "length F = 2" | "length F \<noteq> 1" "length F \<noteq> 2" by blast
  then show ?thesis
  proof cases
    case 1
    then have "at1 (take W g) tid = at1 g tid" using assms by (simp add: at1_take)
    then show ?thesis using 1 by (simp add: switch_F_size_def compact_diagonal_solver_def)
  next
    case 2
    have "tid < int (W div 2)" using assms 2 by simp
    then have "tid < int W" "tid + int (W div 2) < int W" by linarith+
    then have "at1 (take W g) tid = at1 g tid"
      "at1 (take W g) (tid + int (W div 2)) = at1 g (tid + int (W div 2))"
      by (simp_all add: at1_take)
    then show ?thesis
      using 2 by (simp add: switch_F_size_def compact_skew_symmetric_solver_def sdiv_2_nat)
  next
    case 3
    have "tid < int (W div 2)" using assms 3 by simp
    then have "tid < int W" "tid + int (W div 2) < int W" by linarith+
    then have "at1 (take W g) tid = at1 g tid"
      "at1 (take W g) (tid + int (W div 2)) = at1 g (tid + int (W div 2))"
      by (simp_all add: at1_take)
    then show ?thesis
      using 3 by (simp add: switch_F_size_def general_skew_symmetric_solver_def sdiv_2_nat)
  qed
qed

lemma solve_cuda_take_g:
  assumes W: "length x0 < 2 ^ 31"
  shows "solve_cuda F x0 (take (length x0) g) dt steps name = solve_cuda F x0 g dt steps name"
proof -
  have "solve_cuda_run F x0 (take (length x0) g) dt steps name = solve_cuda_run F x0 g dt steps name"
    unfolding solve_cuda_run_active[OF W]
  proof (rule run_threads_cong)
    fix tid b
    assume "tid \<in> set (map int [0..<(if length F = 1 then length x0 else length x0 div 2)])"
    then have "tid < int (if length F = 1 then length x0 else length x0 div 2)" by auto
    then show "solver (switch_F_size (int (length F))) (h_methods name) F b (take (length x0) g) dt
          steps (int (length x0)) tid
        = solver (switch_F_size (int (length F))) (h_methods name) F b g dt steps
            (int (length x0)) tid"
      by (rule solver_take_g)
  qed
  then show ?thesis by (simp add: solve_cuda_def)
qed

lemma solver_reads_g:
  assumes "solver (switch_F_size (int (length F))) method F b g dt steps (int W) (int k) = Inr ws"
    and "k < (if length F = 1 then W else W div 2)"
  shows "(if length F = 1 then k else k + W div 2) < length g"
proof -
  consider "length F = 1" | "length F = 2" | "length F \<noteq> 1" "length F \<noteq> 2" by blast
  then show ?thesis
  proof cases
    case 1
    then show ?thesis
      using assms
      by (auto simp: switch_F_size_def compact_diagonal_solver_def and_then_eq_Inr at1_eq_Inr)
  next
    case 2
    then show ?thesis
      using assms
      by (auto simp: switch_F_size_def compact_skew_symmetric_solver_def sdiv_2_nat
          and_then_eq_Inr at1_eq_Inr simp del: of_nat_add)
  next
    case 3
    then show ?thesis
      using assms
      by (auto simp: switch_F_size_def general_skew_symmetric_solver_def sdiv_2_nat
          and_then_eq_Inr at1_eq_Inr simp del: of_nat_add)
  qed
qed

lemma solve_cuda_short_g:
  assumes W: "length x0 < 2 ^ 31"
    and short: "length g < (if length F = 1 then length x0 else 2 * (length x0 div 2))"
  shows "solve_cuda F x0 g dt steps name \<noteq> Inr r"
proof
  let ?n = "if length F = 1 then length x0 else length x0 div 2"
  assume "solve_cuda F x0 g dt steps name = Inr r"
  then obtain st where "solve_cuda_run F x0 g dt steps name = Inr (r, st)"
    by (cases "solve_cuda_run F x0 g dt steps name") (auto simp: solve_cuda_def)
  then have run: "run_threads
      (\<lambda>x0_a. solver (switch_F_size (int (length F))) (h_methods name) F x0_a g dt steps
                 (int (length x0)))
      (map int [0..<?n]) (x0, []) = Inr (r, st)"
    using solve_cuda_run_active[OF W, of F g dt steps name] by simp
  have pos: "0 < ?n" using short by (auto split: if_splits)
  define k where "k = ?n - 1"
  have k: "k < ?n" using pos by (simp add: k_def)
  then have "int k \<in> int ` set [0..<?n]" by (intro imageI) simp
  then have "int k \<in> set (map int [0..<?n])" by simp
  from run_threads_all_return[OF run this]
  obtain b ws where "solver (switch_F_size (int (length F))) (h_methods name) F b g dt steps
      (int (length x0)) (int k) = Inr ws"
    by blast
  then have "(if length F = 1 then k else k + length x0 div 2) < length g"
    using k by (rule solver_reads_g)
  then show False using short pos by (auto simp: k_def split: if_splits)
qed

lemma solve_cpp_checked:
  assumes "is_cuda F" "is_contiguous F" "is_cuda x0" "is_contiguous x0" "is_cuda g" "is_contiguous g"
  shows "solve_cpp F x0 g dt steps name = solve_cuda (data F) (data x0) (data g) dt steps name"
  using assms by (simp add: solve_cpp_def CHECK_INPUT_def)

lemma h_methods_Euler: "h_methods ''Euler'' = Some euler_method"
  by (simp add: h_methods_def)

lemma h_methods_RK4: "h_methods ''RK4'' = Some rk4_method"
  by (simp add: h_methods_def)

lemma solve_cuda_returns:
  fixes F :: "'a::{plus,times,inverse,numeral} list list"
    and f :: "'a \<Rightarrow> 'a \<Rightarrow> 'a \<Rightarrow> 'a \<Rightarrow> 'a"
  assumes "valid_call F x0 g" and "h_methods name = Some f \<or> nat steps = 0"
  shows "\<exists>r. solve_cuda F x0 g dt steps name = Inr r"
proof (cases "length F = 1")
  case True
  then show ?thesis
    using solve_cuda_run_diagonal[OF assms(1) True assms(2), of dt] by (simp add: solve_cuda_def)
next
  case False
  then show ?thesis
    using solve_cuda_run_paired[OF assms(1) False assms(2), of dt] by (simp add: solve_cuda_def)
qed

text \<open>
  C8 (amended). Neither \<open>solve_cpp\<close> nor \<open>solve_cuda\<close> compares the lengths of \<open>x0\<close> and
  \<open>g\<close>; the interface checks only that the tensors are CUDA tensors and contiguous. For
  tensors that pass these checks and a state of fewer than \<open>2 ^ 31\<close> elements: the call
  computes what it computes with \<open>g\<close> cut to the length of \<open>x0\<close>, so a longer \<open>g\<close> is
  accepted, its extra entries are ignored and the state is integrated (the call returns
  when the call with the cut \<open>g\<close> is valid and the method is recognised); and when \<open>g\<close>
  is shorter than the indices the threads read (\<open>W\<close> with one matrix row, \<open>2 * (W div 2)\<close>
  otherwise) no error is raised before the launch: a thread reads \<open>g\<close> out of range, or a
  thread before it calls a null method, after the kernel has started.
\<close>

theorem length_mismatch_is_not_checked:
  fixes F :: "'a::{plus,times,inverse,numeral} list list tensor"
  assumes "is_cuda F" "is_contiguous F" "is_cuda x0" "is_contiguous x0"
    "is_cuda g" "is_contiguous g"
    and W: "length (data x0) < 2 ^ 31"
  shows "solve_cpp F x0 g dt steps name
           = solve_cpp F x0 (g\<lparr>data := take (length (data x0)) (data g)\<rparr>) dt steps name
       \<and> (length (data x0) \<le> length (data g)
            \<and> valid_call (data F) (data x0) (take (length (data x0)) (data g))
            \<and> (name = ''Euler'' \<or> name = ''RK4'')
          \<longrightarrow> (\<exists>r. solve_cpp F x0 g dt steps name = Inr r))
       \<and> (length (data g) < (if length (data F) = 1 then length (data x0)
                                else 2 * (length (data x0) div 2))
          \<longrightarrow> solve_cpp F x0 g dt steps name = Inl OutOfBounds
              \<or> solve_cpp F x0 g dt steps name = Inl NullMethodCall)"
proof (intro conjI impI)
  have cpp: "solve_cpp F x0 g dt steps name = solve_cuda (data F) (data x0) (data g) dt steps name"
    using assms by (simp add: solve_cpp_checked)
  have cut: "solve_cpp F x0 (g\<lparr>data := take (length (data x0)) (data g)\<rparr>) dt steps name
      = solve_cuda (data F) (data x0) (take (length (data x0)) (data g)) dt steps name"
    using assms by (simp add: solve_cpp_checked)
  show same: "solve_cpp F x0 g dt steps name
      = solve_cpp F x0 (g\<lparr>data := take (length (data x0)) (data g)\<rparr>) dt steps name"
    unfolding cpp cut using solve_cuda_take_g[OF W] by simp
  {
    assume a: "length (data x0) \<le> length (data g)
        \<and> valid_call (data F) (data x0) (take (length (data x0)) (data g))
        \<and> (name = ''Euler'' \<or> name = ''RK4'')"
    then have "\<exists>f. h_methods name = Some (f :: 'a \<Rightarrow> 'a \<Rightarrow> 'a \<Rightarrow> 'a \<Rightarrow> 'a)"
      using h_methods_Euler h_methods_RK4 by auto
    then obtain f :: "'a \<Rightarrow> 'a \<Rightarrow> 'a \<Rightarrow> 'a \<Rightarrow> 'a" where "h_methods name = Some f" by blast
    then have "\<exists>r. solve_cuda (data F) (data x0) (take (length (data x0)) (data g)) dt steps name
        = Inr r"
      using a by (intro solve_cuda_returns[where f = f]) simp_all
    then show "\<exists>r. solve_cpp F x0 g dt steps name = Inr r"
      unfolding same cut .
  }
  {
    assume "length (data g) < (if length (data F) = 1 then length (data x0)
        else 2 * (length (data x0) div 2))"
    then have "solve_cuda (data F) (data x0) (data g) dt steps name \<noteq> Inr r" for r
      by (rule solve_cuda_short_g[OF W])
    then obtain e where e: "solve_cuda (data F) (data x0) (data g) dt steps name = Inl e"
      by (cases "solve_cuda (data F) (data x0) (data g) dt steps name") auto
    then have "e = OutOfBounds \<or> e = NullMethodCall" by (rule solve_cuda_fault)
    then show "solve_cpp F x0 g dt steps name = Inl OutOfBounds
        \<or> solve_cpp F x0 g dt steps name = Inl NullMethodCall"
      unfolding cpp using e by auto
  }
qed

theorem length_mismatch_is_not_checked_witness:
  "length [1 :: real] < 2 ^ 31 \<and> length [1 :: real] \<le> length [1, 1 :: real]
   \<and> valid_call [[2]] [1] (take (length [1 :: real]) [1, 1 :: real])
   \<and> (\<exists>r. solve_cpp \<lparr>is_cuda = True, is_contiguous = True, data = [[2]]\<rparr>
              \<lparr>is_cuda = True, is_contiguous = True, data = [1]\<rparr>
              \<lparr>is_cuda = True, is_contiguous = True, data = [1, 1 :: real]\<rparr> 1 1 ''Euler'' = Inr r)
   \<and> (solve_cpp \<lparr>is_cuda = True, is_contiguous = True, data = [[2]]\<rparr>
              \<lparr>is_cuda = True, is_contiguous = True, data = [1, 1]\<rparr>
              \<lparr>is_cuda = True, is_contiguous = True, data = [1 :: real]\<rparr> 1 1 ''Euler'' = Inl OutOfBounds
      \<or> solve_cpp \<lparr>is_cuda = True, is_contiguous = True, data = [[2]]\<rparr>
              \<lparr>is_cuda = True, is_contiguous = True, data = [1, 1]\<rparr>
              \<lparr>is_cuda = True, is_contiguous = True, data = [1 :: real]\<rparr> 1 1 ''Euler''
           = Inl NullMethodCall)"
proof -
  let ?F = "\<lparr>is_cuda = True, is_contiguous = True, data = [[2 :: real]]\<rparr>"
  let ?one = "\<lparr>is_cuda = True, is_contiguous = True, data = [1 :: real]\<rparr>"
  let ?two = "\<lparr>is_cuda = True, is_contiguous = True, data = [1, 1 :: real]\<rparr>"
  have v: "valid_call [[2]] [1] (take (length [1 :: real]) [1, 1 :: real])"
    by (simp add: valid_call_def)
  have long: "\<exists>r. solve_cpp ?F ?one ?two 1 1 ''Euler'' = Inr r"
    using v length_mismatch_is_not_checked[of ?F ?one ?two 1 1 "''Euler''",
        THEN conjunct2, THEN conjunct1]
    by simp
  have short: "solve_cpp ?F ?two ?one 1 1 ''Euler'' = Inl OutOfBounds
      \<or> solve_cpp ?F ?two ?one 1 1 ''Euler'' = Inl NullMethodCall"
    using length_mismatch_is_not_checked[of ?F ?two ?one 1 1 "''Euler''",
        THEN conjunct2, THEN conjunct2]
    by simp
  show ?thesis
    using v long short by simp
qed

text \<open>
  The claim as stated fails: \<open>x0\<close> of length 1 and \<open>g\<close> of length 2 are accepted, and the state
  is integrated and returned.
\<close>

theorem length_mismatch_counterexample:
  "solve_cpp \<lparr>is_cuda = True, is_contiguous = True, data = [[2]]\<rparr>
     \<lparr>is_cuda = True, is_contiguous = True, data = [1]\<rparr>
     \<lparr>is_cuda = True, is_contiguous = True, data = [1, 1 :: real]\<rparr> 1 1 ''Euler'' = Inr [3]"
proof -
  have v: "valid_call [[2]] [1] [1 :: real]" by (simp add: valid_call_def)
  have "solve_cuda [[2]] [1] [1, 1 :: real] 1 1 ''Euler''
      = solve_cuda [[2]] [1] (take (length [1 :: real]) [1, 1 :: real]) 1 1 ''Euler''"
    by (rule solve_cuda_take_g[symmetric]) simp
  also have "\<dots> = solve_cuda [[2]] [1] [1 :: real] 1 1 ''Euler''" by simp
  also have "\<dots> = Inr [3]"
    using solve_cuda_run_diagonal[OF v, of "''Euler''" euler_method 1 1]
    by (simp add: solve_cuda_def h_methods_Euler euler_method_def)
  finally show ?thesis by (simp add: solve_cpp_checked)
qed

section \<open>Which elements a launch covers\<close>

lemma pair_indices:
  assumes "n \<le> h"
  shows "distinct (concat (map (\<lambda>k. [int k, int k + int h]) [0..<n]))
       \<and> set (concat (map (\<lambda>k. [int k, int k + int h]) [0..<n])) = int ` ({0..<n} \<union> {h..<h + n})"
  using assms
proof (induction n)
  case 0
  show ?case by simp
next
  case (Suc n)
  then have IH: "distinct (concat (map (\<lambda>k. [int k, int k + int h]) [0..<n]))"
    "set (concat (map (\<lambda>k. [int k, int k + int h]) [0..<n])) = int ` ({0..<n} \<union> {h..<h + n})"
    by simp_all
  have n: "n < h" using Suc.prems by simp
  have new: "int n \<notin> int ` ({0..<n} \<union> {h..<h + n})" "int n + int h \<notin> int ` ({0..<n} \<union> {h..<h + n})"
    using n by (auto simp flip: of_nat_add)
  have "{0..<Suc n} \<union> {h..<h + Suc n} = insert n (insert (n + h) ({0..<n} \<union> {h..<h + n}))"
    using n by auto
  then have "int ` ({0..<Suc n} \<union> {h..<h + Suc n})
      = insert (int n) (insert (int n + int h) (int ` ({0..<n} \<union> {h..<h + n})))"
    by simp
  then show ?case using IH new n by simp
qed

lemma pair_indices_all:
  "distinct (concat (map (\<lambda>k. [int k, int k + int h]) [0..<h]))"
  "set (concat (map (\<lambda>k. [int k, int k + int h]) [0..<h])) = int ` {0..<2 * h}"
proof -
  have "{0..<h} \<union> {h..<h + h} = {0..<2 * h}" by auto
  then show "distinct (concat (map (\<lambda>k. [int k, int k + int h]) [0..<h]))"
    "set (concat (map (\<lambda>k. [int k, int k + int h]) [0..<h])) = int ` {0..<2 * h}"
    using pair_indices[of h h] by simp_all
qed

lemma h_methods_recognised:
  assumes "name = ''Euler'' \<or> name = ''RK4''"
  shows "\<exists>f :: 'a::{plus,times,inverse,numeral} \<Rightarrow> 'a \<Rightarrow> 'a \<Rightarrow> 'a \<Rightarrow> 'a. h_methods name = Some f"
  using assms h_methods_Euler h_methods_RK4 by blast

text \<open>
  C4 (amended). For every valid call with a recognised method the launch has at least \<open>W\<close>
  threads (\<open>blocks * 512 \<ge> W\<close>) and the call returns after every thread has run its whole
  loop. With one matrix row (\<open>compact_diagonal_solver\<close>) every one of the \<open>W\<close> elements is
  stored by exactly one thread. In the two skew-symmetric kernels the elements below
  \<open>2 * (W div 2)\<close> are stored by exactly one thread each: all of them when \<open>W\<close> is even, all
  but the last one when \<open>W\<close> is odd; the last element of an odd \<open>W\<close> belongs to no pair, no
  thread touches it and it keeps its initial value. Every stored element holds the value
  that its thread computes from the initial array with \<open>steps\<close> iterations.
\<close>

theorem covered_elements:
  fixes F :: "'a::{plus,times,inverse,numeral} list list"
  assumes v: "valid_call F x0 g" and name: "name = ''Euler'' \<or> name = ''RK4''"
  shows "int (length x0) \<le> int32 ((int (length x0) + 512 - 1) sdiv 512) * 512
      \<and> (\<exists>r stored. solve_cuda_run F x0 g dt steps name = Inr (r, stored)
      \<and> length r = length x0
      \<and> distinct stored
      \<and> set stored = int ` {0..<(if length F = 1 then length x0 else 2 * (length x0 div 2))}
      \<and> (\<forall>k < (if length F = 1 then length x0 else length x0 div 2).
            \<exists>ws. solver (switch_F_size (int (length F))) (h_methods name) F x0 g dt steps
                    (int (length x0)) (int k) = Inr ws
                \<and> ws \<noteq> [] \<and> (\<forall>(i, y) \<in> set ws. r ! nat i = y))
      \<and> (\<forall>i. (if length F = 1 then length x0 else 2 * (length x0 div 2)) \<le> i \<and> i < length x0
            \<longrightarrow> r ! i = x0 ! i))"
proof -
  have W: "length x0 < 2 ^ 31" using v by (simp add: valid_call_def)
  have "int (length x0) \<le> int ((length x0 + 511) div 512 * 512)"
    using blocks_small(2)[OF W] by (rule iffD2[OF of_nat_le_iff])
  then have threads: "int (length x0) \<le> int32 ((int (length x0) + 512 - 1) sdiv 512) * 512"
    unfolding blocks_small(1)[OF W] by simp
  obtain f :: "'a \<Rightarrow> 'a \<Rightarrow> 'a \<Rightarrow> 'a \<Rightarrow> 'a" where f: "h_methods name = Some f"
    using h_methods_recognised[OF name] by blast
  then have m: "h_methods name = Some f \<or> nat steps = 0" by simp
  have g: "length g = length x0" using v by (simp add: valid_call_def)
  show ?thesis
  proof (cases "length F = 1")
    case True
    let ?v = "\<lambda>i. single_steps f (F ! 0 ! 0) (g ! i) dt (nat steps) (x0 ! i)"
    have run: "solve_cuda_run F x0 g dt steps name
        = Inr (map ?v [0..<length x0], map int [0..<length x0])"
      using v True m by (rule solve_cuda_run_diagonal)
    have c: "at2 F 0 0 = Inr (F ! 0 ! 0)" using valid_at2[OF v, of 0 0] True by simp
    have thread: "solver (switch_F_size (int (length F))) (h_methods name) F x0 g dt steps
          (int (length x0)) (int k) = Inr [(int k, ?v k)]" if "k < length x0" for k
      using compact_diagonal_thread[OF m, of k "length x0" x0 g F "F ! 0 ! 0" dt] that g c True
      by (simp add: switch_F_size_def)
    have "distinct (map int [0..<length x0])" by (simp add: distinct_map)
    then have "\<exists>r stored. solve_cuda_run F x0 g dt steps name = Inr (r, stored)
        \<and> length r = length x0 \<and> distinct stored
        \<and> set stored = int ` {0..<(if length F = 1 then length x0 else 2 * (length x0 div 2))}
        \<and> (\<forall>k < (if length F = 1 then length x0 else length x0 div 2).
              \<exists>ws. solver (switch_F_size (int (length F))) (h_methods name) F x0 g dt steps
                      (int (length x0)) (int k) = Inr ws
                  \<and> ws \<noteq> [] \<and> (\<forall>(i, y) \<in> set ws. r ! nat i = y))
        \<and> (\<forall>i. (if length F = 1 then length x0 else 2 * (length x0 div 2)) \<le> i \<and> i < length x0
              \<longrightarrow> r ! i = x0 ! i)"
      using True run thread by (intro exI[of _ "map ?v [0..<length x0]"]
          exI[of _ "map int [0..<length x0]"]) simp
    with threads show ?thesis by (rule conjI)
  next
    case False
    let ?h = "length x0 div 2"
    let ?P = "pair_result f F x0 g dt steps"
    let ?r = "map (\<lambda>i. if i < ?h then fst (?P i) else if i < 2 * ?h then snd (?P (i - ?h))
                       else x0 ! i) [0..<length x0]"
    let ?st = "concat (map (\<lambda>k. [int k, int k + int ?h]) [0..<?h])"
    have run: "solve_cuda_run F x0 g dt steps name = Inr (?r, ?st)"
      using v False m by (rule solve_cuda_run_paired)
    have thread: "solver (switch_F_size (int (length F))) (h_methods name) F x0 g dt steps
          (int (length x0)) (int k)
        = Inr [(int k, fst (?P k)), (int k + int ?h, snd (?P k))]" if "k < ?h" for k
      using v False m that by (rule paired_thread_valid) simp_all
    have vals: "?r ! k = fst (?P k)" "?r ! nat (int k + int ?h) = snd (?P k)" if "k < ?h" for k
    proof -
      have "nat (int k + int ?h) = k + ?h" by simp
      moreover have "k + ?h < length x0" "k < length x0" using that by simp_all
      ultimately show "?r ! k = fst (?P k)" "?r ! nat (int k + int ?h) = snd (?P k)"
        using that by (simp_all del: of_nat_add)
    qed
    have rest: "?r ! i = x0 ! i" if "2 * ?h \<le> i" "i < length x0" for i
      using that by simp
    have "\<exists>r stored. solve_cuda_run F x0 g dt steps name = Inr (r, stored)
        \<and> length r = length x0 \<and> distinct stored
        \<and> set stored = int ` {0..<(if length F = 1 then length x0 else 2 * (length x0 div 2))}
        \<and> (\<forall>k < (if length F = 1 then length x0 else length x0 div 2).
              \<exists>ws. solver (switch_F_size (int (length F))) (h_methods name) F x0 g dt steps
                      (int (length x0)) (int k) = Inr ws
                  \<and> ws \<noteq> [] \<and> (\<forall>(i, y) \<in> set ws. r ! nat i = y))
        \<and> (\<forall>i. (if length F = 1 then length x0 else 2 * (length x0 div 2)) \<le> i \<and> i < length x0
              \<longrightarrow> r ! i = x0 ! i)"
      using False run thread vals rest pair_indices_all[of ?h]
      by (intro exI[of _ ?r] exI[of _ ?st]) (simp del: of_nat_add)
    with threads show ?thesis by (rule conjI)
  qed
qed

theorem covered_elements_witness:
  "valid_call [[1, 1], [1, 1]] [1, 2, 3, 4] [1, 1, 1, 1 :: real]
   \<and> (\<exists>r stored. solve_cuda_run [[1, 1], [1, 1]] [1, 2, 3, 4] [1, 1, 1, 1 :: real] 1 2 ''RK4''
          = Inr (r, stored)
        \<and> length r = 4 \<and> distinct stored \<and> set stored = int ` {0..<4})"
proof -
  have v: "valid_call [[1, 1], [1, 1]] [1, 2, 3, 4] [1, 1, 1, 1 :: real]"
    by (simp add: valid_call_def)
  have n: "''RK4'' = ''Euler'' \<or> ''RK4'' = ''RK4''" by simp
  show ?thesis
    using v covered_elements[OF v n, of 1 2] by auto
qed

text \<open>
  The claim as stated fails for an odd \<open>W\<close> on a skew-symmetric kernel: with three elements
  and a 2 x 2 matrix the only thread that passes the guard stores the elements 0 and 1;
  element 2 is stored by no thread and keeps its value 3, although every coefficient, the
  scale and the step size are 1.
\<close>

theorem covered_elements_counterexample:
  "solve_cuda_run [[1, 1], [1, 1]] [1, 2, 3] [1, 1, 1 :: real] 1 1 ''Euler''
     = Inr ([3, 5, 3], [0, 1])"
proof -
  have v: "valid_call [[1, 1], [1, 1]] [1, 2, 3] [1, 1, 1 :: real]"
    by (simp add: valid_call_def)
  show ?thesis
    using solve_cuda_run_paired[OF v, of "''Euler''" euler_method 1 1]
    by (simp add: h_methods_Euler pair_result_def euler_method_def)
qed

section \<open>The initial values of the second pair elements\<close>










section \<open>Euler with a zero coefficient matrix\<close>

lemma single_steps_euler_zero:
  fixes x :: "'a::semiring_0"
  shows "single_steps euler_method 0 g_in dt n x = x"
  by (induction n arbitrary: x) (simp_all add: euler_method_def)

lemma pair_steps_euler_zero:
  fixes x1 :: "'a::semiring_0"
  shows "pair_steps euler_method 0 0 0 0 g1 g2 dt n (x1, x2) = (x1, if n = 0 then x2 else x1)"
  by (induction n arbitrary: x2) (simp_all add: euler_method_def Let_def)

lemma zero_entries:
  assumes "valid_call F x0 g" and "\<forall>row \<in> set F. \<forall>c \<in> set row. c = 0"
    and "i < length F" and "j < length F"
  shows "F ! i ! j = 0"
proof -
  have "F ! i \<in> set F" using assms(3) by simp
  moreover from this have "length (F ! i) = length F" using assms(1) by (simp add: valid_call_def)
  ultimately show ?thesis using assms(2,4) by (metis nth_mem)
qed

lemma pair_result_euler_zero:
  fixes F :: "'a::semiring_0 list list"
  assumes v: "valid_call F x0 g" and zero: "\<forall>row \<in> set F. \<forall>c \<in> set row. c = 0"
    and F: "length F \<noteq> 1" and k: "k < length x0 div 2"
  shows "pair_result euler_method F x0 g dt steps k
       = (x0 ! k, if nat steps = 0 then x0 ! (k + length x0 div 2) else x0 ! k)"
proof (cases "length F = 2")
  case True
  then have "F ! 0 ! 0 = 0" "F ! 0 ! 1 = 0" "F ! 1 ! 0 = 0" "F ! 1 ! 1 = 0"
    using zero_entries[OF v zero, of 0 0] zero_entries[OF v zero, of 0 1]
      zero_entries[OF v zero, of 1 0] zero_entries[OF v zero, of 1 1] by simp_all
  then show ?thesis
    using True by (simp add: pair_result_def Let_def pair_steps_euler_zero)
next
  case False
  let ?h = "length x0 div 2"
  have FW: "length F = length x0" using v F False by (auto simp: valid_call_def)
  have kh: "k < length F" "k + ?h < length F" using k FW by simp_all
  have "F ! k ! k = 0" "F ! k ! (k + ?h) = 0" "F ! (k + ?h) ! k = 0" "F ! (k + ?h) ! (k + ?h) = 0"
    using zero_entries[OF v zero kh(1) kh(1)] zero_entries[OF v zero kh(1) kh(2)]
      zero_entries[OF v zero kh(2) kh(1)] zero_entries[OF v zero kh(2) kh(2)] by simp_all
  then show ?thesis
    using False by (simp add: pair_result_def Let_def pair_steps_euler_zero)
qed

lemma solve_cuda_euler_zero_diagonal:
  fixes F :: "'a::{semiring_0,inverse,numeral} list list"
  assumes v: "valid_call F x0 g" and zero: "\<forall>row \<in> set F. \<forall>c \<in> set row. c = 0"
    and F: "length F = 1"
  shows "solve_cuda F x0 g dt steps ''Euler'' = Inr x0"
proof -
  have "F ! 0 ! 0 = 0" using zero_entries[OF v zero, of 0 0] F by simp
  moreover have "map (\<lambda>i. x0 ! i) [0..<length x0] = x0" by (rule map_nth)
  ultimately show ?thesis
    using solve_cuda_run_diagonal[OF v F, of "''Euler''" euler_method steps dt]
    by (simp add: solve_cuda_def h_methods_Euler single_steps_euler_zero)
qed

lemma solve_cuda_euler_zero_paired:
  fixes F :: "'a::{semiring_0,inverse,numeral} list list"
  assumes v: "valid_call F x0 g" and zero: "\<forall>row \<in> set F. \<forall>c \<in> set row. c = 0"
    and F: "length F \<noteq> 1"
  shows "solve_cuda F x0 g dt steps ''Euler''
       = Inr (map (\<lambda>i. if length x0 div 2 \<le> i \<and> i < 2 * (length x0 div 2) \<and> nat steps \<noteq> 0
                       then x0 ! (i - length x0 div 2) else x0 ! i) [0..<length x0])"
proof -
  let ?h = "length x0 div 2"
  have "map (\<lambda>i. if i < ?h then fst (pair_result euler_method F x0 g dt steps i)
                  else if i < 2 * ?h then snd (pair_result euler_method F x0 g dt steps (i - ?h))
                  else x0 ! i) [0..<length x0]
      = map (\<lambda>i. if ?h \<le> i \<and> i < 2 * ?h \<and> nat steps \<noteq> 0 then x0 ! (i - ?h) else x0 ! i)
          [0..<length x0]"
  proof (rule map_cong[OF refl])
    fix i
    assume "i \<in> set [0..<length x0]"
    consider "i < ?h" | "?h \<le> i" "i < 2 * ?h" | "2 * ?h \<le> i" by linarith
    then show "(if i < ?h then fst (pair_result euler_method F x0 g dt steps i)
                else if i < 2 * ?h then snd (pair_result euler_method F x0 g dt steps (i - ?h))
                else x0 ! i)
        = (if ?h \<le> i \<and> i < 2 * ?h \<and> nat steps \<noteq> 0 then x0 ! (i - ?h) else x0 ! i)"
    proof cases
      case 1
      then show ?thesis using pair_result_euler_zero[OF v zero F 1, of dt steps] by simp
    next
      case 2
      then have k: "i - ?h < ?h" by linarith
      show ?thesis using 2 pair_result_euler_zero[OF v zero F k, of dt steps] by simp
    next
      case 3
      then show ?thesis by simp
    qed
  qed
  then show ?thesis
    using solve_cuda_run_paired[OF v F, of "''Euler''" euler_method steps dt]
    by (simp add: solve_cuda_def h_methods_Euler)
qed

text \<open>
  C3. With the method \<open>"Euler"\<close> and a coefficient matrix whose entries are all zero every
  increment is zero, and the call is to leave every element of the state unchanged. The
  compact diagonal kernel does (\<open>solve_cuda_euler_zero_diagonal\<close>). The two skew-symmetric
  kernels do not: they assign \<open>x0_in_2 = x0_in_1 + ...\<close>, where every other update of the
  source is \<open>x = x + ...\<close>, so that after a step the second element of a pair holds the
  value of the first (\<open>solve_cuda_euler_zero_paired\<close>). The code at the failing inputs: a
  zero 2 x 2 matrix and the state \<open>[1, 2]\<close> give \<open>[1, 1]\<close>; a zero 4 x 4 matrix and the
  state \<open>[1, 2, 3, 4]\<close> give \<open>[1, 2, 1, 2]\<close>; the zero 1 x 1 matrix leaves \<open>[1, 2]\<close> as it
  is.
\<close>

theorem euler_zero_matrix_changes_second_elements:
  "solve_cuda [[0, 0], [0, 0]] [1, 2] [1, 1 :: real] 1 1 ''Euler'' = Inr [1, 1]
   \<and> solve_cuda [[0, 0, 0, 0], [0, 0, 0, 0], [0, 0, 0, 0], [0, 0, 0, 0]] [1, 2, 3, 4]
         [1, 1, 1, 1 :: real] 1 1 ''Euler'' = Inr [1, 2, 1, 2]
   \<and> solve_cuda [[0]] [1, 2] [1, 1 :: real] 1 1 ''Euler'' = Inr [1, 2]"
proof -
  have v2: "valid_call [[0, 0], [0, 0]] [1, 2] [1, 1 :: real]"
    and v4: "valid_call [[0, 0, 0, 0], [0, 0, 0, 0], [0, 0, 0, 0], [0, 0, 0, 0]] [1, 2, 3, 4]
      [1, 1, 1, 1 :: real]"
    and v1: "valid_call [[0]] [1, 2] [1, 1 :: real]"
    by (simp_all add: valid_call_def)
  have "solve_cuda [[0, 0], [0, 0]] [1, 2] [1, 1 :: real] 1 1 ''Euler'' = Inr [1, 1]"
    using solve_cuda_euler_zero_paired[OF v2, of 1 1] by simp
  moreover have "solve_cuda [[0, 0, 0, 0], [0, 0, 0, 0], [0, 0, 0, 0], [0, 0, 0, 0]] [1, 2, 3, 4]
      [1, 1, 1, 1 :: real] 1 1 ''Euler'' = Inr [1, 2, 1, 2]"
    using solve_cuda_euler_zero_paired[OF v4, of 1 1] by (simp add: upt_rec)
  moreover have "solve_cuda [[0]] [1, 2] [1, 1 :: real] 1 1 ''Euler'' = Inr [1, 2]"
    using solve_cuda_euler_zero_diagonal[OF v1, of 1 1] by simp
  ultimately show ?thesis by simp
qed

end
